theory Spec2Isabelle
  imports Complex_Main
begin

section \<open>Strings\<close>

text \<open>
  A Python \<open>str\<close> is a sequence of Unicode code points, and \<open>len\<close> counts code points.
  A string is therefore a list of code points; \<open>lit\<close> writes an ASCII literal.
\<close>

type_synonym str = "nat list"

definition lit :: "string \<Rightarrow> str" where
  "lit s = map of_char s"

text \<open>Line feed and the hash sign.\<close>

abbreviation NL :: nat where "NL \<equiv> 10"
abbreviation HASH :: nat where "HASH \<equiv> 35"

text \<open>
  The characters that \<open>str.strip()\<close>, \<open>str.split()\<close> and the pattern \<open>\s\<close> (on a
  \<open>str\<close> pattern) treat as whitespace.
\<close>

definition isspace :: "nat \<Rightarrow> bool" where
  "isspace c \<longleftrightarrow>
     (9 \<le> c \<and> c \<le> 13) \<or> (28 \<le> c \<and> c \<le> 32) \<or> c = 133 \<or> c = 160 \<or> c = 5760 \<or>
     (8192 \<le> c \<and> c \<le> 8202) \<or> c = 8232 \<or> c = 8233 \<or> c = 8239 \<or> c = 8287 \<or> c = 12288"

text \<open>\<open>s.strip()\<close>\<close>

definition strip :: "str \<Rightarrow> str" where
  "strip s = rev (dropWhile isspace (rev (dropWhile isspace s)))"

text \<open>\<open>sep.join(xs)\<close>\<close>

fun join :: "str \<Rightarrow> str list \<Rightarrow> str" where
  "join sep [] = []"
| "join sep [x] = x"
| "join sep (x # y # ys) = x @ sep @ join sep (y # ys)"

text \<open>
  \<open>text.split('\n\n')\<close>: the separator is searched from the left, occurrences do not
  overlap, and the empty text gives one empty piece.
\<close>

fun cons_head :: "nat \<Rightarrow> str list \<Rightarrow> str list" where
  "cons_head c [] = [[c]]"
| "cons_head c (r # rs) = (c # r) # rs"

fun split_nn :: "str \<Rightarrow> str list" where
  "split_nn (a # b # cs) =
     (if a = NL \<and> b = NL then [] # split_nn cs else cons_head a (split_nn (b # cs)))"
| "split_nn [a] = [[a]]"
| "split_nn [] = [[]]"

text \<open>\<open>[p for p in text.split('\n\n') if p.strip()]\<close>\<close>

definition paragraphs :: "str \<Rightarrow> str list" where
  "paragraphs text = filter (\<lambda>p. strip p \<noteq> []) (split_nn text)"

text \<open>
  \<open>bool(re.match(r'^#{1,6}\s', para))\<close>: between one and six hash signs at the start,
  followed by a whitespace character. Seven or more hash signs do not match, since the
  character after the sixth is a hash sign.
\<close>

definition is_heading :: "str \<Rightarrow> bool" where
  "is_heading para =
     (let k = length (takeWhile (\<lambda>c. c = HASH) para)
      in 1 \<le> k \<and> k \<le> 6 \<and> k < length para \<and> isspace (para ! k))"

section \<open>Paragraph chunker\<close>

text \<open>
  The test of the loop of \<open>chunk_by_paragraphs\<close>:
  \<^verbatim>\<open>(current_count >= max_paragraphs) or
  (current_count > 0 and is_heading and current_count >= max(2, max_paragraphs // 2))\<close>
\<close>

definition para_cut :: "int \<Rightarrow> nat \<Rightarrow> str \<Rightarrow> bool" where
  "para_cut max_paragraphs current_count para \<longleftrightarrow>
     int current_count \<ge> max_paragraphs \<or>
     (current_count > 0 \<and> is_heading para \<and> int current_count \<ge> max 2 (max_paragraphs div 2))"

text \<open>
  The loop over the paragraphs. The state is \<open>(chunks, current_chunk, current_count)\<close>.
\<close>

fun para_loop :: "int \<Rightarrow> str list \<Rightarrow> str list \<times> str list \<times> nat \<Rightarrow> str list \<times> str list \<times> nat" where
  "para_loop max_paragraphs [] st = st"
| "para_loop max_paragraphs (para # rest) (chunks, current_chunk, current_count) =
     (if para_cut max_paragraphs current_count para
      then para_loop max_paragraphs rest (chunks @ [join [NL, NL] current_chunk], [para], 1)
      else para_loop max_paragraphs rest (chunks, current_chunk @ [para], current_count + 1))"

definition chunk_by_paragraphs :: "str \<Rightarrow> int \<Rightarrow> str list" where
  "chunk_by_paragraphs text max_paragraphs =
     (let paragraphs = paragraphs text in
      if paragraphs = [] then [[]]
      else (case para_loop max_paragraphs paragraphs ([], [], 0) of
              (chunks, current_chunk, current_count) \<Rightarrow>
                if current_chunk \<noteq> [] then chunks @ [join [NL, NL] current_chunk] else chunks))"

text \<open>
  The same loop, keeping each chunk as the list of its paragraphs instead of their join,
  so that the paragraphs of a chunk can be counted.
\<close>

fun para_groups_loop :: "int \<Rightarrow> str list \<Rightarrow> str list list \<Rightarrow> str list \<Rightarrow> str list list" where
  "para_groups_loop m [] groups cur = (if cur \<noteq> [] then groups @ [cur] else groups)"
| "para_groups_loop m (para # rest) groups cur =
     (if para_cut m (length cur) para
      then para_groups_loop m rest (groups @ [cur]) [para]
      else para_groups_loop m rest groups (cur @ [para]))"

definition para_groups :: "int \<Rightarrow> str list \<Rightarrow> str list list" where
  "para_groups m ps = para_groups_loop m ps [] []"

text \<open>
  The rule of the specification for starting a new chunk: the current chunk holds
  \<open>max_paragraphs\<close> paragraphs, or it holds at least \<open>max(2, max_paragraphs // 2)\<close>
  paragraphs and the next paragraph is a heading.
\<close>

definition new_chunk_rule :: "int \<Rightarrow> nat \<Rightarrow> str \<Rightarrow> bool" where
  "new_chunk_rule m held next_para \<longleftrightarrow>
     int held = m \<or> (int held \<ge> max 2 (m div 2) \<and> is_heading next_para)"

text \<open>
  What holds of a chunk while it is being filled: it has at most \<open>m\<close> paragraphs, and at
  none of its paragraphs after the first did the rule ask for a new chunk.
\<close>

definition para_group_ok :: "int \<Rightarrow> str list \<Rightarrow> bool" where
  "para_group_ok m g \<longleftrightarrow>
     int (length g) \<le> m \<and> (\<forall>j. 0 < j \<and> j < length g \<longrightarrow> \<not> new_chunk_rule m j (g ! j))"

section \<open>Paragraph chunker: properties\<close>

lemma para_loop_groups:
  "(case para_loop m ps (map (join [NL, NL]) groups, cur, length cur) of
      (chunks, cur', cnt') \<Rightarrow>
        (if cur' \<noteq> [] then chunks @ [join [NL, NL] cur'] else chunks)) =
     map (join [NL, NL]) (para_groups_loop m ps groups cur)"
proof (induction ps arbitrary: groups cur)
  case Nil
  show ?case by simp
next
  case (Cons p ps)
  show ?case
  proof (cases "para_cut m (length cur) p")
    case True
    from Cons.IH [of "groups @ [cur]" "[p]"] True show ?thesis by simp
  next
    case False
    from Cons.IH [of groups "cur @ [p]"] False show ?thesis by simp
  qed
qed

lemma chunk_by_paragraphs_groups:
  "paragraphs text \<noteq> [] \<Longrightarrow>
   chunk_by_paragraphs text m = map (join [NL, NL]) (para_groups m (paragraphs text))"
  using para_loop_groups [of m "paragraphs text" "[]" "[]"]
  by (simp add: chunk_by_paragraphs_def para_groups_def Let_def)

lemma para_groups_loop_prefix:
  "para_groups_loop m ps groups cur = groups @ para_groups_loop m ps [] cur"
proof (induction ps arbitrary: groups cur)
  case Nil
  show ?case by simp
next
  case (Cons p ps)
  show ?case
    using Cons.IH [of "groups @ [cur]" "[p]"] Cons.IH [of "[cur]" "[p]"] Cons.IH [of groups "cur @ [p]"]
    by simp
qed

lemma para_groups_loop_cut:
  "para_cut m (length cur) p \<Longrightarrow>
   para_groups_loop m (p # ps) [] cur = cur # para_groups_loop m ps [] [p]"
  using para_groups_loop_prefix [of m ps "[cur]" "[p]"] by simp

lemma para_groups_loop_keep:
  "\<not> para_cut m (length cur) p \<Longrightarrow>
   para_groups_loop m (p # ps) [] cur = para_groups_loop m ps [] (cur @ [p])"
  by simp

lemma para_groups_loop_concat:
  "concat (para_groups_loop m ps groups cur) = concat groups @ cur @ ps"
  by (induction ps arbitrary: groups cur) auto

lemma para_groups_loop_hd:
  "cur \<noteq> [] \<Longrightarrow> para_groups_loop m ps [] cur \<noteq> [] \<and> hd (hd (para_groups_loop m ps [] cur)) = hd cur"
proof (induction ps arbitrary: cur)
  case Nil
  then show ?case by simp
next
  case (Cons p ps)
  show ?case
  proof (cases "para_cut m (length cur) p")
    case True
    then show ?thesis using Cons.prems
      by (simp add: para_groups_loop_cut del: para_groups_loop.simps)
  next
    case False
    then show ?thesis using Cons.IH [of "cur @ [p]"] Cons.prems
      by (simp add: para_groups_loop_keep del: para_groups_loop.simps)
  qed
qed

lemma para_cut_rule:
  "1 \<le> m \<Longrightarrow> int cnt \<le> m \<Longrightarrow> para_cut m cnt p = new_chunk_rule m cnt p"
  by (auto simp: para_cut_def new_chunk_rule_def)

lemma para_group_ok_snoc:
  assumes "1 \<le> m" "para_group_ok m cur" "\<not> para_cut m (length cur) p"
  shows "para_group_ok m (cur @ [p])"
proof -
  have len: "int (length cur) \<le> m" using assms(2) by (simp add: para_group_ok_def)
  have nr: "\<not> new_chunk_rule m (length cur) p"
    using assms(1,3) len by (simp add: para_cut_rule)
  have lt: "int (length cur) < m"
    using assms(3) by (simp add: para_cut_def)
  show ?thesis
    unfolding para_group_ok_def
  proof (intro conjI allI impI)
    show "int (length (cur @ [p])) \<le> m" using lt by simp
  next
    fix j assume j: "0 < j \<and> j < length (cur @ [p])"
    show "\<not> new_chunk_rule m j ((cur @ [p]) ! j)"
    proof (cases "j < length cur")
      case True
      then show ?thesis using assms(2) j by (simp add: para_group_ok_def nth_append)
    next
      case False
      then have "j = length cur" using j by simp
      then show ?thesis using nr by simp
    qed
  qed
qed

lemma para_groups_loop_ok:
  assumes "1 \<le> m"
  shows "para_group_ok m cur \<Longrightarrow>
    (\<forall>g \<in> set (para_groups_loop m ps [] cur). g \<noteq> [] \<and> para_group_ok m g) \<and>
    successively (\<lambda>g h. new_chunk_rule m (length g) (hd h)) (para_groups_loop m ps [] cur)"
proof (induction ps arbitrary: cur)
  case Nil
  then show ?case by simp
next
  case (Cons p ps)
  show ?case
  proof (cases "para_cut m (length cur) p")
    case True
    have len: "int (length cur) \<le> m" using Cons.prems by (simp add: para_group_ok_def)
    have rule: "new_chunk_rule m (length cur) p"
      using True assms len by (simp add: para_cut_rule)
    have ne: "cur \<noteq> []" using True assms by (auto simp: para_cut_def)
    have single: "para_group_ok m [p]" using assms by (simp add: para_group_ok_def)
    note ih = Cons.IH [OF single]
    have hd: "para_groups_loop m ps [] [p] \<noteq> [] \<and> hd (hd (para_groups_loop m ps [] [p])) = p"
      using para_groups_loop_hd [of "[p]" m ps] by simp
    show ?thesis
      using True ih hd rule ne Cons.prems
      by (simp add: para_groups_loop_cut successively_Cons del: para_groups_loop.simps)
  next
    case False
    have "para_group_ok m (cur @ [p])"
      using para_group_ok_snoc [OF assms Cons.prems False] .
    from Cons.IH [OF this] False show ?thesis
      by (simp add: para_groups_loop_keep del: para_groups_loop.simps)
  qed
qed

lemma new_chunk_rule_minimum:
  "2 \<le> m \<Longrightarrow> new_chunk_rule m held p \<Longrightarrow> max 2 (m div 2) \<le> int held"
  by (auto simp: new_chunk_rule_def)

text \<open>
  With \<open>max_paragraphs = 1\<close> every chunk is closed after one paragraph, because the
  test \<open>current_count >= max_paragraphs\<close> already holds. A heading then starts a new
  chunk although the chunk before it holds one paragraph, fewer than the minimum
  \<open>max(2, 1 // 2) = 2\<close>: the text \<^verbatim>\<open>a\n\n# b\n\nc\<close> gives the chunks
  \<^verbatim>\<open>a\<close>, \<^verbatim>\<open># b\<close>, \<^verbatim>\<open>c\<close>.
\<close>

theorem paragraph_heading_below_minimum_counterexample:
  "paragraphs (lit ''a'' @ [NL, NL] @ lit ''# b'' @ [NL, NL] @ lit ''c'') =
     [lit ''a'', lit ''# b'', lit ''c''] \<and>
   chunk_by_paragraphs (lit ''a'' @ [NL, NL] @ lit ''# b'' @ [NL, NL] @ lit ''c'') 1 =
     [lit ''a'', lit ''# b'', lit ''c''] \<and>
   is_heading (lit ''# b'') \<and>
   int (length [lit ''a'']) < max 2 (1 div 2) \<and>
   \<not> (int (length [lit ''a'']) \<ge> max 2 (1 div 2) \<and> is_heading (lit ''# b''))"
  by (simp add: chunk_by_paragraphs_def paragraphs_def strip_def para_cut_def is_heading_def
      lit_def isspace_def)

text \<open>
  C5. For \<open>max_paragraphs \<ge> 1\<close> the chunks of the Paragraph Chunker are the joins of
  groups of consecutive paragraphs that partition the paragraph list in order. No group is
  empty or holds more than \<open>max_paragraphs\<close> paragraphs. A new chunk starts exactly where
  the rule asks for one: between two consecutive groups the rule holds (the first group is
  full, or it has reached the minimum \<open>max(2, max_paragraphs // 2)\<close> and the next
  paragraph is a heading), and inside a group the rule holds at no paragraph after the first.
  For \<open>max_paragraphs \<ge> 2\<close> a heading never starts a new chunk before the chunk
  before it holds at least \<open>max(2, max_paragraphs // 2)\<close> paragraphs; for
  \<open>max_paragraphs = 1\<close> this last part fails, as shown above.
\<close>

theorem paragraph_chunker_new_chunk_rule:
  assumes "1 \<le> m"
  shows "(paragraphs text \<noteq> [] \<longrightarrow>
            chunk_by_paragraphs text m = map (join [NL, NL]) (para_groups m (paragraphs text))) \<and>
         concat (para_groups m (paragraphs text)) = paragraphs text \<and>
         (\<forall>g \<in> set (para_groups m (paragraphs text)).
            g \<noteq> [] \<and> int (length g) \<le> m \<and>
            (\<forall>j. 0 < j \<and> j < length g \<longrightarrow> \<not> new_chunk_rule m j (g ! j))) \<and>
         (\<forall>i. Suc i < length (para_groups m (paragraphs text)) \<longrightarrow>
            new_chunk_rule m (length (para_groups m (paragraphs text) ! i))
              (hd (para_groups m (paragraphs text) ! Suc i))) \<and>
         (2 \<le> m \<longrightarrow>
            (\<forall>i. Suc i < length (para_groups m (paragraphs text)) \<and>
                 is_heading (hd (para_groups m (paragraphs text) ! Suc i)) \<longrightarrow>
               max 2 (m div 2) \<le> int (length (para_groups m (paragraphs text) ! i))))"
proof -
  have ok: "para_group_ok m []" using assms by (simp add: para_group_ok_def)
  note inv = para_groups_loop_ok [OF assms ok, of "paragraphs text"]
  have cc: "concat (para_groups m (paragraphs text)) = paragraphs text"
    by (simp add: para_groups_def para_groups_loop_concat)
  have grp: "\<forall>g \<in> set (para_groups m (paragraphs text)).
            g \<noteq> [] \<and> int (length g) \<le> m \<and>
            (\<forall>j. 0 < j \<and> j < length g \<longrightarrow> \<not> new_chunk_rule m j (g ! j))"
    using inv by (simp add: para_groups_def para_group_ok_def)
  have bnd: "\<forall>i. Suc i < length (para_groups m (paragraphs text)) \<longrightarrow>
            new_chunk_rule m (length (para_groups m (paragraphs text) ! i))
              (hd (para_groups m (paragraphs text) ! Suc i))"
    using inv by (simp add: para_groups_def successively_conv_nth)
  have hdg: "2 \<le> m \<longrightarrow>
            (\<forall>i. Suc i < length (para_groups m (paragraphs text)) \<and>
                 is_heading (hd (para_groups m (paragraphs text) ! Suc i)) \<longrightarrow>
               max 2 (m div 2) \<le> int (length (para_groups m (paragraphs text) ! i)))"
    using bnd new_chunk_rule_minimum [of m] by blast
  show ?thesis
    using chunk_by_paragraphs_groups [of "text" m] cc grp bnd hdg by blast
qed

theorem paragraph_chunker_new_chunk_rule_witness:
  "(1::int) \<le> 5 \<and> (2::int) \<le> 5 \<and>
   paragraphs (lit ''a'' @ [NL, NL] @ lit ''# b'' @ [NL, NL] @ lit ''c'' @ [NL, NL] @ lit ''# d'' @ [NL, NL] @ lit ''e'') =
     [lit ''a'', lit ''# b'', lit ''c'', lit ''# d'', lit ''e''] \<and>
   para_groups 5 [lit ''a'', lit ''# b'', lit ''c'', lit ''# d'', lit ''e''] =
     [[lit ''a'', lit ''# b'', lit ''c''], [lit ''# d'', lit ''e'']] \<and>
   chunk_by_paragraphs (lit ''a'' @ [NL, NL] @ lit ''# b'' @ [NL, NL] @ lit ''c'' @ [NL, NL] @ lit ''# d'' @ [NL, NL] @ lit ''e'') 5 =
     [lit ''a'' @ [NL, NL] @ lit ''# b'' @ [NL, NL] @ lit ''c'', lit ''# d'' @ [NL, NL] @ lit ''e''] \<and>
   is_heading (lit ''# b'') \<and> \<not> new_chunk_rule 5 1 (lit ''# b'') \<and>
   is_heading (lit ''# d'') \<and> new_chunk_rule 5 3 (lit ''# d'') \<and> int 3 \<noteq> 5 \<and>
   max 2 (5 div 2) \<le> int (length [lit ''a'', lit ''# b'', lit ''c''])"
proof -
  let ?t = "lit ''a'' @ [NL, NL] @ lit ''# b'' @ [NL, NL] @ lit ''c'' @ [NL, NL] @ lit ''# d'' @ [NL, NL] @ lit ''e''"
  let ?g = "[lit ''a'', lit ''# b'', lit ''c'']"
  have h: "(1::int) \<le> 5" by simp
  have p: "paragraphs ?t = [lit ''a'', lit ''# b'', lit ''c'', lit ''# d'', lit ''e'']"
    by (simp add: paragraphs_def strip_def lit_def isspace_def)
  have g: "para_groups 5 [lit ''a'', lit ''# b'', lit ''c'', lit ''# d'', lit ''e''] =
     [?g, [lit ''# d'', lit ''e'']]"
    by (simp add: para_groups_def para_cut_def is_heading_def lit_def isspace_def)
  have j: "map (join [NL, NL]) [?g, [lit ''# d'', lit ''e'']] =
     [lit ''a'' @ [NL, NL] @ lit ''# b'' @ [NL, NL] @ lit ''c'', lit ''# d'' @ [NL, NL] @ lit ''e'']" by simp
  have hb: "is_heading (lit ''# b'')" by (simp add: is_heading_def lit_def isspace_def)
  have hdd: "is_heading (lit ''# d'')" by (simp add: is_heading_def lit_def isspace_def)
  note inst = paragraph_chunker_new_chunk_rule [OF h, of ?t, unfolded p g]
  have c: "chunk_by_paragraphs ?t 5 = map (join [NL, NL]) [?g, [lit ''# d'', lit ''e'']]"
    using inst by simp
  have "\<forall>g \<in> set [?g, [lit ''# d'', lit ''e'']].
          g \<noteq> [] \<and> int (length g) \<le> 5 \<and>
          (\<forall>j. 0 < j \<and> j < length g \<longrightarrow> \<not> new_chunk_rule 5 j (g ! j))"
    using inst by blast
  then have "\<forall>j. 0 < j \<and> j < length ?g \<longrightarrow> \<not> new_chunk_rule 5 j (?g ! j)"
    by (metis list.set_intros(1))
  from this [rule_format, of 1]
  have inside: "\<not> new_chunk_rule 5 1 (?g ! 1)"
    by simp
  have between: "new_chunk_rule 5 (length ?g) (hd [lit ''# d'', lit ''e''])"
    using inst by simp
  have minimum: "max 2 (5 div 2) \<le> int (length ?g)"
    using inst hdd by simp
  show ?thesis
    using p g c inside between minimum hb hdd unfolding j by (simp add: numeral_3_eq_3)
qed

section \<open>The natural-language libraries\<close>

text \<open>
  The tokenizers, the stop-word list and the vectorizer are library functions (NLTK,
  scikit-learn). They are parameters of the model. A call either returns or raises; the
  source tells \<open>LookupError\<close> (missing tokenizer data) from every other exception.
\<close>

datatype exn = LookupError str | OtherError str

record nlp =
  has_sklearn :: bool
  sent_tokenize :: "str \<Rightarrow> exn + str list"
  sent_tokenize_retry :: "str \<Rightarrow> exn + str list"
  word_tokenize :: "str \<Rightarrow> exn + str list"
  tfidf_cosine :: "str list \<Rightarrow> exn + (nat \<Rightarrow> nat \<Rightarrow> real)"
  stopwords_words :: "exn + str list"
  stopwords_words_retry :: "exn + str list"
  lower :: "str \<Rightarrow> str"

text \<open>
  An environment without the optional libraries and without tokenizer data: every library
  call raises, so that only the fallbacks written in the source are exercised.
\<close>

definition bare_nlp :: nlp where
  "bare_nlp = \<lparr>has_sklearn = False,
     sent_tokenize = (\<lambda>t. Inl (LookupError [])),
     sent_tokenize_retry = (\<lambda>t. Inl (LookupError [])),
     word_tokenize = (\<lambda>t. Inl (LookupError [])),
     tfidf_cosine = (\<lambda>ps. Inl (OtherError [])),
     stopwords_words = Inl (LookupError []),
     stopwords_words_retry = Inl (LookupError []),
     lower = (\<lambda>t. t)\<rparr>"

section \<open>Token-budget chunker\<close>

text \<open>
  \<open>re.split(r'(?<=[.!?])\s+', text)\<close>: the text is cut at every run of whitespace that
  follows a full stop, an exclamation mark or a question mark; the run is dropped.
\<close>

function regex_sentences :: "str \<Rightarrow> str list" where
  "regex_sentences [] = [[]]"
| "regex_sentences (c # cs) =
     (if (c = 46 \<or> c = 33 \<or> c = 63) \<and> cs \<noteq> [] \<and> isspace (hd cs)
      then [c] # regex_sentences (dropWhile isspace cs)
      else cons_head c (regex_sentences cs))"
  by pat_completeness auto
termination
  by (relation "measure length") (auto simp: less_Suc_eq_le length_dropWhile_le)

text \<open>\<open>s.split()\<close>: the maximal runs of characters that are not whitespace.\<close>

fun split_ws_from :: "str \<Rightarrow> str \<Rightarrow> str list" where
  "split_ws_from [] w = (if w = [] then [] else [w])"
| "split_ws_from (c # cs) w =
     (if isspace c then (if w = [] then split_ws_from cs [] else w # split_ws_from cs [])
      else split_ws_from cs (w @ [c]))"

definition split_ws :: "str \<Rightarrow> str list" where
  "split_ws s = split_ws_from s []"

text \<open>
  The sentences of \<open>chunk_by_tokens\<close>: \<open>sent_tokenize\<close>; on a \<open>LookupError\<close> the
  tokenizer data is downloaded (taken to return) and \<open>sent_tokenize\<close> is called again;
  if that raises anything the regular expression is used. Any other exception of the first
  call is not handled.
\<close>

definition split_sentences :: "nlp \<Rightarrow> str \<Rightarrow> exn + str list" where
  "split_sentences env text =
     (case sent_tokenize env text of
        Inr sentences \<Rightarrow> Inr sentences
      | Inl (LookupError msg) \<Rightarrow>
          (case sent_tokenize_retry env text of
             Inr sentences \<Rightarrow> Inr sentences
           | Inl e \<Rightarrow> Inr (regex_sentences text))
      | Inl (OtherError msg) \<Rightarrow> Inl (OtherError msg))"

text \<open>
  \<open>len(word_tokenize(sentence))\<close>, and \<open>len(sentence.split())\<close> when the tokenizer raises.
\<close>

definition sentence_token_count :: "nlp \<Rightarrow> str \<Rightarrow> nat" where
  "sentence_token_count env sentence =
     (case word_tokenize env sentence of
        Inr ws \<Rightarrow> length ws
      | Inl e \<Rightarrow> length (split_ws sentence))"

text \<open>The loop over the sentences; the state is \<open>(chunks, current_chunk, current_token_count)\<close>.\<close>

fun token_loop :: "nlp \<Rightarrow> int \<Rightarrow> str list \<Rightarrow> str list \<times> str list \<times> nat \<Rightarrow> str list \<times> str list \<times> nat" where
  "token_loop env max_tokens [] st = st"
| "token_loop env max_tokens (sentence # rest) (chunks, current_chunk, current_token_count) =
     (let sentence_token_count = sentence_token_count env sentence in
      if int (current_token_count + sentence_token_count) > max_tokens \<and> current_chunk \<noteq> []
      then token_loop env max_tokens rest
             (chunks @ [join [32] current_chunk], [sentence], sentence_token_count)
      else token_loop env max_tokens rest
             (chunks, current_chunk @ [sentence], current_token_count + sentence_token_count))"

definition pack_sentences :: "nlp \<Rightarrow> int \<Rightarrow> str list \<Rightarrow> str list" where
  "pack_sentences env max_tokens sentences =
     (case token_loop env max_tokens sentences ([], [], 0) of
        (chunks, current_chunk, current_token_count) \<Rightarrow>
          if current_chunk \<noteq> [] then chunks @ [join [32] current_chunk] else chunks)"

definition chunk_by_tokens :: "nlp \<Rightarrow> str \<Rightarrow> int \<Rightarrow> exn + str list" where
  "chunk_by_tokens env text max_tokens =
     (case split_sentences env text of
        Inl e \<Rightarrow> Inl e
      | Inr sentences \<Rightarrow> Inr (pack_sentences env max_tokens sentences))"

text \<open>The running token count of a list of sentences.\<close>

definition tokens_of :: "nlp \<Rightarrow> str list \<Rightarrow> nat" where
  "tokens_of env g = sum_list (map (sentence_token_count env) g)"

text \<open>The same loop, keeping each chunk as the list of its sentences.\<close>

fun token_groups_loop :: "nlp \<Rightarrow> int \<Rightarrow> str list \<Rightarrow> str list list \<Rightarrow> str list \<Rightarrow> str list list" where
  "token_groups_loop env m [] groups cur = (if cur \<noteq> [] then groups @ [cur] else groups)"
| "token_groups_loop env m (s # rest) groups cur =
     (if int (tokens_of env cur + sentence_token_count env s) > m \<and> cur \<noteq> []
      then token_groups_loop env m rest (groups @ [cur]) [s]
      else token_groups_loop env m rest groups (cur @ [s]))"

definition token_groups :: "nlp \<Rightarrow> int \<Rightarrow> str list \<Rightarrow> str list list" where
  "token_groups env m sentences = token_groups_loop env m sentences [] []"

text \<open>
  A chunk within budget, or made of one sentence that alone exceeds the budget.
\<close>

definition within_budget :: "nlp \<Rightarrow> int \<Rightarrow> str list \<Rightarrow> bool" where
  "within_budget env m g \<longleftrightarrow>
     int (tokens_of env g) \<le> m \<or> (length g = 1 \<and> int (sentence_token_count env (hd g)) > m)"

section \<open>Token-budget chunker: properties\<close>

lemma token_loop_groups:
  "(case token_loop env m ss (map (join [32]) groups, cur, tokens_of env cur) of
      (chunks, cur', cnt') \<Rightarrow>
        (if cur' \<noteq> [] then chunks @ [join [32] cur'] else chunks)) =
     map (join [32]) (token_groups_loop env m ss groups cur)"
proof (induction ss arbitrary: groups cur)
  case Nil
  show ?case by simp
next
  case (Cons s ss)
  show ?case
  proof (cases "int (tokens_of env cur + sentence_token_count env s) > m \<and> cur \<noteq> []")
    case True
    have "tokens_of env [s] = sentence_token_count env s" by (simp add: tokens_of_def)
    with Cons.IH [of "groups @ [cur]" "[s]"] True show ?thesis by (simp add: Let_def)
  next
    case False
    have "tokens_of env (cur @ [s]) = tokens_of env cur + sentence_token_count env s"
      by (simp add: tokens_of_def)
    with Cons.IH [of groups "cur @ [s]"] False show ?thesis by (auto simp add: Let_def)
  qed
qed

lemma pack_sentences_groups:
  "pack_sentences env m ss = map (join [32]) (token_groups env m ss)"
  using token_loop_groups [of env m ss "[]" "[]"]
  by (simp add: pack_sentences_def token_groups_def tokens_of_def)

lemma token_groups_loop_prefix:
  "token_groups_loop env m ss groups cur = groups @ token_groups_loop env m ss [] cur"
proof (induction ss arbitrary: groups cur)
  case Nil
  show ?case by simp
next
  case (Cons s ss)
  show ?case
    using Cons.IH [of "groups @ [cur]" "[s]"] Cons.IH [of "[cur]" "[s]"] Cons.IH [of groups "cur @ [s]"]
    by simp
qed

lemma token_groups_loop_concat:
  "concat (token_groups_loop env m ss groups cur) = concat groups @ cur @ ss"
  by (induction ss arbitrary: groups cur) auto

lemma token_groups_loop_budget:
  "cur = [] \<or> within_budget env m cur \<Longrightarrow>
   \<forall>g \<in> set (token_groups_loop env m ss [] cur). g \<noteq> [] \<and> within_budget env m g"
proof (induction ss arbitrary: cur)
  case Nil
  then show ?case by auto
next
  case (Cons s ss)
  have single: "within_budget env m [s]"
    by (auto simp: within_budget_def tokens_of_def)
  show ?case
  proof (cases "int (tokens_of env cur + sentence_token_count env s) > m \<and> cur \<noteq> []")
    case True
    have eq: "token_groups_loop env m (s # ss) [] cur = cur # token_groups_loop env m ss [] [s]"
      using True token_groups_loop_prefix [of env m ss "[cur]" "[s]"] by simp
    from Cons.IH [of "[s]"] single have "\<forall>g \<in> set (token_groups_loop env m ss [] [s]). g \<noteq> [] \<and> within_budget env m g"
      by simp
    then show ?thesis using True Cons.prems unfolding eq by simp
  next
    case False
    have eq: "token_groups_loop env m (s # ss) [] cur = token_groups_loop env m ss [] (cur @ [s])"
      using False by auto
    have "within_budget env m (cur @ [s])"
    proof (cases "cur = []")
      case True
      then show ?thesis using single by simp
    next
      case ne: False
      with False have "int (tokens_of env cur + sentence_token_count env s) \<le> m" by simp
      then show ?thesis by (simp add: within_budget_def tokens_of_def)
    qed
    with Cons.IH [of "cur @ [s]"] show ?thesis unfolding eq by simp
  qed
qed


text \<open>
  C4. Whenever the sentence splitter returns, the chunks of the Token-Budget Chunker are the
  joins (with one space) of groups of consecutive sentences that partition the sentence
  list in order, so no sentence is dropped or split. The running token count of every
  group is at most \<open>max_tokens\<close>, unless the group is a single sentence whose own count
  exceeds \<open>max_tokens\<close>. This holds for every \<open>max_tokens\<close>, in particular for
  \<open>max_tokens \<ge> 1\<close>.
\<close>

theorem token_budget_respected:
  assumes "split_sentences env text = Inr sentences"
  shows "chunk_by_tokens env text m = Inr (map (join [32]) (token_groups env m sentences)) \<and>
         concat (token_groups env m sentences) = sentences \<and>
         (\<forall>g \<in> set (token_groups env m sentences).
            g \<noteq> [] \<and>
            (int (tokens_of env g) \<le> m \<or>
             (length g = 1 \<and> int (sentence_token_count env (hd g)) > m)))"
proof -
  have a: "chunk_by_tokens env text m = Inr (map (join [32]) (token_groups env m sentences))"
    using assms by (simp add: chunk_by_tokens_def pack_sentences_groups)
  have b: "concat (token_groups env m sentences) = sentences"
    by (simp add: token_groups_def token_groups_loop_concat)
  have c: "\<forall>g \<in> set (token_groups env m sentences). g \<noteq> [] \<and> within_budget env m g"
    using token_groups_loop_budget [of "[]" env m sentences] by (simp add: token_groups_def)
  show ?thesis using a b c unfolding within_budget_def by blast
qed

theorem token_budget_respected_witness:
  "split_sentences bare_nlp (lit ''One two. Three four five. Six.'') =
     Inr [lit ''One two.'', lit ''Three four five.'', lit ''Six.''] \<and>
   chunk_by_tokens bare_nlp (lit ''One two. Three four five. Six.'') 2 =
     Inr [lit ''One two.'', lit ''Three four five.'', lit ''Six.''] \<and>
   chunk_by_tokens bare_nlp (lit ''One two. Three four five. Six.'') 5 =
     Inr [lit ''One two. Three four five.'', lit ''Six.''] \<and>
   sentence_token_count bare_nlp (lit ''Three four five.'') = 3"
proof -
  let ?t = "lit ''One two. Three four five. Six.''"
  let ?ss = "[lit ''One two.'', lit ''Three four five.'', lit ''Six.'']"
  have s: "split_sentences bare_nlp ?t = Inr ?ss"
    by (simp add: split_sentences_def bare_nlp_def lit_def isspace_def)
  have c: "sentence_token_count bare_nlp (lit ''One two.'') = 2"
      "sentence_token_count bare_nlp (lit ''Three four five.'') = 3"
      "sentence_token_count bare_nlp (lit ''Six.'') = 1"
    by (simp_all add: sentence_token_count_def bare_nlp_def split_ws_def lit_def isspace_def)
  have g2: "token_groups bare_nlp 2 ?ss = [[lit ''One two.''], [lit ''Three four five.''], [lit ''Six.'']]"
    by (simp add: token_groups_def tokens_of_def c)
  have g5: "token_groups bare_nlp 5 ?ss = [[lit ''One two.'', lit ''Three four five.''], [lit ''Six.'']]"
    by (simp add: token_groups_def tokens_of_def c)
  from token_budget_respected [OF s, of 2] have "chunk_by_tokens bare_nlp ?t 2 = Inr ?ss"
    unfolding g2 by simp
  moreover from token_budget_respected [OF s, of 5]
  have "chunk_by_tokens bare_nlp ?t 5 = Inr [lit ''One two. Three four five.'', lit ''Six.'']"
    unfolding g5 by (simp add: lit_def)
  ultimately show ?thesis using s c by simp
qed

section \<open>Structure chunker\<close>

text \<open>
  The pattern of \<open>chunk_by_structure\<close> is
  \<^verbatim>\<open>(^|\n)(#+\s+.+)(\n|$)\<close> with \<open>re.MULTILINE\<close>.

  \<open>ws_backtrack\<close> is the backtracking of the greedy \<open>\s+\<close>: the longest number \<open>j \<ge> 1\<close> of
  whitespace characters after which \<open>.+\<close> can start, that is, after which a character
  other than a line feed stands.
\<close>

fun ws_backtrack :: "str \<Rightarrow> nat \<Rightarrow> nat option" where
  "ws_backtrack after 0 = None"
| "ws_backtrack after (Suc j) =
     (if Suc j < length after \<and> after ! Suc j \<noteq> NL then Some (Suc j) else ws_backtrack after j)"

text \<open>
  \<open>heading_at s\<close> matches \<^verbatim>\<open>(#+\s+.+)(\n|$)\<close> at the start of \<open>s\<close> and returns the two
  groups and the text after the match. \<open>#+\<close> takes all the hash signs (a whitespace
  character is never a hash sign, so giving one back cannot help); \<open>.+\<close> runs to the end
  of the line, which is the only place where the last group can match.
\<close>

definition heading_at :: "str \<Rightarrow> (str \<times> str \<times> str) option" where
  "heading_at s =
     (let hashes = takeWhile (\<lambda>c. c = HASH) s;
          after = dropWhile (\<lambda>c. c = HASH) s;
          ws = takeWhile isspace after
      in if hashes = [] then None
         else (case ws_backtrack after (length ws) of
                 None \<Rightarrow> None
               | Some j \<Rightarrow>
                   (let body = takeWhile (\<lambda>c. c \<noteq> NL) (drop j after);
                        rest = dropWhile (\<lambda>c. c \<noteq> NL) (drop j after)
                    in Some (hashes @ take j after @ body,
                             (if rest = [] then [] else [NL]),
                             (if rest = [] then [] else tl rest)))))"

lemma length_tl_dropWhile_drop:
  "length (tl (dropWhile P (drop j xs))) \<le> length xs"
proof -
  have "length (dropWhile P (drop j xs)) \<le> length (drop j xs)"
    by (rule length_dropWhile_le)
  then show ?thesis by simp
qed

lemma heading_at_shorter:
  assumes "heading_at s = Some (g2, g3, rest)"
  shows "length rest < length s"
proof -
  let ?after = "dropWhile (\<lambda>c. c = HASH) s"
  from assms have ne: "takeWhile (\<lambda>c. c = HASH) s \<noteq> []"
    by (auto simp: heading_at_def Let_def split: if_splits)
  have "length (takeWhile (\<lambda>c. c = HASH) s) + length ?after = length s"
    by (metis length_append takeWhile_dropWhile_id)
  with ne have lt: "length ?after < length s" by (cases "takeWhile (\<lambda>c. c = HASH) s") auto
  have "length rest \<le> length ?after"
    using assms
    by (auto simp: heading_at_def Let_def length_tl_dropWhile_drop
        simp del: dropWhile_eq_Nil_conv length_tl split: if_splits option.splits)
  with lt show ?thesis by simp
qed

text \<open>
  \<open>re.split(pattern, text, flags=re.MULTILINE)\<close>: the list
  \<open>[t0, g1, g2, g3, t1, g1, g2, g3, ..., tn]\<close> of the texts between the matches and the
  three groups of every match. The search goes from left to right; at each position the
  alternative \<open>^\<close> of the first group is tried before \<open>\n\<close>. \<open>bol\<close> says whether the
  position is at the start of the text or right after a line feed (where \<open>^\<close> matches),
  \<open>pre\<close> is the text passed over since the last match.
\<close>

function re_split_headings :: "bool \<Rightarrow> str \<Rightarrow> str \<Rightarrow> str list" where
  "re_split_headings bol pre s =
     (case (if bol then heading_at s else None) of
        Some (g2, g3, rest) \<Rightarrow> pre # [] # g2 # g3 # re_split_headings (g3 = [NL]) [] rest
      | None \<Rightarrow>
          (case s of
             [] \<Rightarrow> [pre]
           | c # cs \<Rightarrow>
               (case (if c = NL then heading_at cs else None) of
                  Some (g2, g3, rest) \<Rightarrow>
                    pre # [NL] # g2 # g3 # re_split_headings (g3 = [NL]) [] rest
                | None \<Rightarrow> re_split_headings (c = NL) (pre @ [c]) cs)))"
  by pat_completeness auto
termination
proof (relation "measure (\<lambda>(bol, pre, s). length s)")
  show "wf (measure (\<lambda>(bol, pre, s). length s))" by simp
next
  fix bol :: bool and pre s :: str and x2 g2 y g3 rest
  assume "(if bol then heading_at s else None) = Some x2" "(g2, y) = x2" "(g3, rest) = y"
  then have "heading_at s = Some (g2, g3, rest)" by (auto split: if_splits)
  then show "((g3 = [NL], [], rest), bol, pre, s) \<in> measure (\<lambda>(bol, pre, s). length s)"
    using heading_at_shorter by simp
next
  fix bol :: bool and pre s :: str and c cs x2 g2 y g3 rest
  assume "s = c # cs" "(if c = NL then heading_at cs else None) = Some x2"
    "(g2, y) = x2" "(g3, rest) = y"
  then have "heading_at cs = Some (g2, g3, rest)" by (auto split: if_splits)
  then have "length rest < length cs" by (rule heading_at_shorter)
  then show "((g3 = [NL], [], rest), bol, pre, s) \<in> measure (\<lambda>(bol, pre, s). length s)"
    using \<open>s = c # cs\<close> by simp
next
  fix bol :: bool and pre s :: str and c cs
  assume "s = c # cs"
  then show "((c = NL, pre @ [c], cs), bol, pre, s) \<in> measure (\<lambda>(bol, pre, s). length s)"
    by simp
qed

declare re_split_headings.simps [simp del]

text \<open>\<open>range(1, n, 4)\<close>\<close>

definition range_1_step_4 :: "nat \<Rightarrow> nat list" where
  "range_1_step_4 n = map (\<lambda>k. 1 + 4 * k) [0..<(n + 2) div 4]"

text \<open>
  The loop that builds \<open>sections\<close>:
  \<^verbatim>\<open>for i in range(1, len(parts), 4):
    if i+2 < len(parts):
        heading = parts[i+1]
        content = parts[i+2]
        sections.append(heading + content)\<close>
\<close>

definition sections_of :: "str list \<Rightarrow> str list" where
  "sections_of parts =
     map (\<lambda>i. parts ! (i + 1) @ parts ! (i + 2))
       (filter (\<lambda>i. i + 2 < length parts) (range_1_step_4 (length parts)))"

text \<open>
  The loop over the sections. \<open>word_tokenize\<close> is not guarded here; an exception of it or of
  \<open>chunk_by_tokens\<close> leaves the function.
\<close>

fun structure_loop :: "nlp \<Rightarrow> int \<Rightarrow> str list \<Rightarrow> str list \<Rightarrow> exn + str list" where
  "structure_loop env max_tokens [] chunks = Inr chunks"
| "structure_loop env max_tokens (section # rest) chunks =
     (case word_tokenize env section of
        Inl e \<Rightarrow> Inl e
      | Inr ws \<Rightarrow>
          if int (length ws) \<le> max_tokens
          then structure_loop env max_tokens rest (chunks @ [section])
          else (case chunk_by_tokens env section max_tokens of
                  Inl e \<Rightarrow> Inl e
                | Inr sub_chunks \<Rightarrow> structure_loop env max_tokens rest (chunks @ sub_chunks)))"

definition chunk_by_structure :: "nlp \<Rightarrow> str \<Rightarrow> int \<Rightarrow> exn + str list" where
  "chunk_by_structure env text max_tokens =
     (let parts = re_split_headings True [] text;
          sections = sections_of parts
      in if sections = []
         then Inr (chunk_by_paragraphs text (max 3 (max_tokens div 100)))
         else structure_loop env max_tokens sections [])"

text \<open>The example text of the specification: two headings, each with a body paragraph.\<close>

definition two_sections :: str where
  "two_sections =
     lit ''# A'' @ [NL, NL] @ lit ''text1'' @ [NL, NL] @ lit ''# B'' @ [NL, NL] @ lit ''text2''"

section \<open>Structure chunker: the example of the specification\<close>

lemma two_sections_parts:
  "re_split_headings True [] two_sections =
     [[], [], lit ''# A'', [NL], [NL] @ lit ''text1'' @ [NL], [NL], lit ''# B'', [NL],
      [NL] @ lit ''text2'']"
  by (simp add: two_sections_def re_split_headings.simps heading_at_def lit_def isspace_def Let_def)

lemma two_sections_sections:
  "sections_of
     [[], [], lit ''# A'', [NL], [NL] @ lit ''text1'' @ [NL], [NL], lit ''# B'', [NL],
      [NL] @ lit ''text2''] =
   [lit ''# A'' @ [NL], lit ''# B'' @ [NL]]"
  by (simp add: sections_of_def range_1_step_4_def upt_rec)

text \<open>
  C2. The claim says that a section is a heading together with all the content up to the
  next heading. On the example of the specification the sections are the two heading lines,
  each followed by one line feed: \<open>parts[i+2]\<close> is the third group of the match (the line
  feed that ends the heading line), and the text between the headings, \<open>parts[i+3]\<close>, is
  never read. The bodies \<open>text1\<close> and \<open>text2\<close> are in no section.
\<close>

theorem structure_sections_are_heading_lines:
  "sections_of (re_split_headings True [] two_sections) =
     [lit ''# A'' @ [NL], lit ''# B'' @ [NL]]"
  by (simp only: two_sections_parts two_sections_sections)

text \<open>
  C1. The claim says that joining the chunks of any chunker reproduces all non-blank content
  of the input. With a word tokenizer that splits at whitespace, the Structure Chunker
  returns the two heading lines for the example of the specification: \<open>text1\<close> and
  \<open>text2\<close> are lost.
\<close>

theorem structure_chunker_loses_bodies:
  "chunk_by_structure (env\<lparr>word_tokenize := (\<lambda>t. Inr (split_ws t))\<rparr>) two_sections 500 =
     Inr [lit ''# A'' @ [NL], lit ''# B'' @ [NL]]"
proof -
  have w: "split_ws (lit ''# A'' @ [NL]) = [lit ''#'', lit ''A'']"
      "split_ws (lit ''# B'' @ [NL]) = [lit ''#'', lit ''B'']"
    by (simp_all add: split_ws_def lit_def isspace_def)
  have secs: "sections_of (re_split_headings True [] two_sections) =
      [lit ''# A'' @ [NL], lit ''# B'' @ [NL]]"
    by (simp only: two_sections_parts two_sections_sections)
  show ?thesis
    unfolding chunk_by_structure_def Let_def secs by (simp add: w)
qed

text \<open>
  C3. The claim says that every chunker returns at least one chunk, and the single chunk
  \<open>['']\<close> for empty input. The Token-Budget Chunker has no such guard: whenever the
  sentence tokenizer returns no sentence (as it does for an empty text), the result is the
  empty list of chunks.
\<close>

theorem token_chunker_returns_no_chunk:
  "chunk_by_tokens (env\<lparr>sent_tokenize := (\<lambda>t. Inr [])\<rparr>) text m = Inr []"
  by (simp add: chunk_by_tokens_def split_sentences_def pack_sentences_def)

section \<open>Similarity chunker\<close>

text \<open>
  The loop \<open>for i in range(1, len(paragraphs))\<close> of \<open>chunk_by_semantic_similarity\<close>.
  The state is \<open>(chunks, current_chunk, current_token_count, current_idx)\<close>. The call
  \<open>word_tokenize(paragraphs[i])\<close> is not guarded inside the loop: when it raises, the loop
  is left with the exception.
\<close>

fun similarity_loop ::
  "nlp \<Rightarrow> (nat \<Rightarrow> nat \<Rightarrow> real) \<Rightarrow> int \<Rightarrow> real \<Rightarrow> str list \<Rightarrow> nat list \<Rightarrow>
   str list \<times> str list \<times> nat \<times> nat \<Rightarrow> exn + str list \<times> str list \<times> nat \<times> nat" where
  "similarity_loop env similarities max_tokens similarity_threshold paras [] st = Inr st"
| "similarity_loop env similarities max_tokens similarity_threshold paras (i # rest)
     (chunks, current_chunk, current_token_count, current_idx) =
     (case word_tokenize env (paras ! i) of
        Inl e \<Rightarrow> Inl e
      | Inr ws \<Rightarrow>
          (let paragraph_token_count = length ws;
               similarity_to_current = similarities current_idx i
           in if similarity_to_current > similarity_threshold \<and>
                 int (current_token_count + paragraph_token_count) \<le> max_tokens
              then similarity_loop env similarities max_tokens similarity_threshold paras rest
                     (chunks, current_chunk @ [paras ! i],
                      current_token_count + paragraph_token_count, current_idx)
              else similarity_loop env similarities max_tokens similarity_threshold paras rest
                     (chunks @ [join [NL, NL] current_chunk], [paras ! i],
                      paragraph_token_count, i)))"

text \<open>
  The body of the \<open>try\<close> block. With no paragraph the result is \<open>[""]\<close>; with at most
  three paragraphs, or when the vectorizer raises, the result is that of \<open>chunk_by_tokens\<close>
  on the whole text.
\<close>

definition similarity_try :: "nlp \<Rightarrow> str \<Rightarrow> int \<Rightarrow> real \<Rightarrow> exn + str list" where
  "similarity_try env text max_tokens similarity_threshold =
     (let paragraphs = paragraphs text in
      if paragraphs = [] then Inr [[]]
      else if length paragraphs \<le> 3 then chunk_by_tokens env text max_tokens
      else (case tfidf_cosine env paragraphs of
              Inl e \<Rightarrow> chunk_by_tokens env text max_tokens
            | Inr similarities \<Rightarrow>
                (case word_tokenize env (paragraphs ! 0) of
                   Inl e \<Rightarrow> Inl e
                 | Inr ws \<Rightarrow>
                     (case similarity_loop env similarities max_tokens similarity_threshold
                             paragraphs [1 ..< length paragraphs]
                             ([], [paragraphs ! 0], length ws, 0) of
                        Inl e \<Rightarrow> Inl e
                      | Inr (chunks, current_chunk, current_token_count, current_idx) \<Rightarrow>
                          Inr (if current_chunk \<noteq> [] then chunks @ [join [NL, NL] current_chunk]
                               else chunks)))))"

text \<open>
  \<open>chunk_by_semantic_similarity\<close>: without scikit-learn the token-budget chunker is used;
  an exception that leaves the \<open>try\<close> block is caught (\<open>except Exception\<close>) and the
  token-budget chunker is called on the whole text.
\<close>

definition chunk_by_semantic_similarity :: "nlp \<Rightarrow> str \<Rightarrow> int \<Rightarrow> real \<Rightarrow> exn + str list" where
  "chunk_by_semantic_similarity env text max_tokens similarity_threshold =
     (if \<not> has_sklearn env then chunk_by_tokens env text max_tokens
      else (case similarity_try env text max_tokens similarity_threshold of
              Inr chunks \<Rightarrow> Inr chunks
            | Inl e \<Rightarrow> chunk_by_tokens env text max_tokens))"

section \<open>Similarity chunker: degenerate input and fallbacks\<close>

lemma split_nn_chars: "p \<in> set (split_nn t) \<Longrightarrow> set p \<subseteq> set t"
proof (induction t arbitrary: p rule: split_nn.induct)
  case (1 a b cs)
  show ?case
  proof (cases "a = NL \<and> b = NL")
    case True
    with 1 show ?thesis by auto
  next
    case False
    with "1.prems" have "p \<in> set (cons_head a (split_nn (b # cs)))" by simp
    then show ?thesis
    proof (cases "split_nn (b # cs)")
      case Nil
      with \<open>p \<in> set (cons_head a (split_nn (b # cs)))\<close> show ?thesis by simp
    next
      case (Cons r rs)
      with \<open>p \<in> set (cons_head a (split_nn (b # cs)))\<close> have "p = a # r \<or> p \<in> set rs" by simp
      then show ?thesis using "1.IH"(2) [OF False, of r] "1.IH"(2) [OF False, of p] Cons by auto
    qed
  qed
next
  case (2 a)
  then show ?case by simp
next
  case 3
  then show ?case by simp
qed

lemma strip_whitespace:
  assumes "\<forall>c \<in> set p. isspace c"
  shows "strip p = []"
proof -
  have d: "dropWhile isspace p = []" using assms by simp
  show ?thesis unfolding strip_def d by simp
qed

lemma whitespace_no_paragraphs: "\<forall>c \<in> set text. isspace c \<Longrightarrow> paragraphs text = []"
  unfolding paragraphs_def filter_empty_conv
  using split_nn_chars strip_whitespace by blast

text \<open>
  C10. When scikit-learn is available and the text has no non-empty paragraph, the
  Similarity Chunker returns the single chunk \<open>""\<close>, whatever the tokenizers and the
  vectorizer do (they are not consulted: the result is the same in every environment, also
  one whose token-budget chunker raises or returns something else). A text of whitespace
  only, in particular the empty text, has no non-empty paragraph.
\<close>

theorem similarity_chunker_zero_paragraphs:
  assumes "has_sklearn env"
  shows "(paragraphs text = [] \<longrightarrow>
            chunk_by_semantic_similarity env text max_tokens similarity_threshold = Inr [[]]) \<and>
         ((\<forall>c \<in> set text. isspace c) \<longrightarrow> paragraphs text = [])"
  using assms whitespace_no_paragraphs [of "text"]
  by (simp add: chunk_by_semantic_similarity_def similarity_try_def)

theorem similarity_chunker_zero_paragraphs_witness:
  "has_sklearn (bare_nlp\<lparr>has_sklearn := True\<rparr>) \<and>
   paragraphs (lit '' '') = [] \<and>
   chunk_by_semantic_similarity (bare_nlp\<lparr>has_sklearn := True\<rparr>) (lit '' '') 500 (3 / 10) = Inr [[]] \<and>
   chunk_by_tokens (bare_nlp\<lparr>has_sklearn := True\<rparr>) (lit '' '') 500 = Inr [lit '' ''] \<and>
   chunk_by_semantic_similarity
     (bare_nlp\<lparr>has_sklearn := True, sent_tokenize := (\<lambda>t. Inl (OtherError []))\<rparr>) [] 500 (3 / 10) = Inr [[]] \<and>
   chunk_by_tokens
     (bare_nlp\<lparr>has_sklearn := True, sent_tokenize := (\<lambda>t. Inl (OtherError []))\<rparr>) [] 500 = Inl (OtherError [])"
proof -
  let ?E = "bare_nlp\<lparr>has_sklearn := True\<rparr>"
  let ?F = "bare_nlp\<lparr>has_sklearn := True, sent_tokenize := (\<lambda>t. Inl (OtherError []))\<rparr>"
  have h: "has_sklearn ?E" by simp
  have hF: "has_sklearn ?F" by simp
  have ws: "\<forall>c \<in> set (lit '' ''). isspace c" by (simp add: lit_def isspace_def)
  have p: "paragraphs (lit '' '') = []"
    using similarity_chunker_zero_paragraphs [OF h, of "lit '' ''"] ws by blast
  have c: "chunk_by_semantic_similarity ?E (lit '' '') 500 (3 / 10) = Inr [[]]"
    using similarity_chunker_zero_paragraphs [OF h, of "lit '' ''" 500 "3 / 10"] p by blast
  have p0: "paragraphs [] = []" by (simp add: paragraphs_def strip_def)
  have d: "chunk_by_semantic_similarity ?F [] 500 (3 / 10) = Inr [[]]"
    using similarity_chunker_zero_paragraphs [OF hF, of "[]" 500 "3 / 10"] p0 by blast
  have t: "chunk_by_tokens ?E (lit '' '') 500 = Inr [lit '' '']"
    by (simp add: chunk_by_tokens_def split_sentences_def pack_sentences_def
        sentence_token_count_def split_ws_def bare_nlp_def lit_def isspace_def)
  have u: "chunk_by_tokens ?F [] 500 = Inl (OtherError [])"
    by (simp add: chunk_by_tokens_def split_sentences_def bare_nlp_def)
  show ?thesis using h p c d t u by simp
qed

text \<open>
  With scikit-learn available and a text of one space, the text has fewer than four
  paragraphs (it has none), and the Similarity Chunker returns \<open>[""]\<close> while the
  Token-Budget Chunker returns \<open>[" "]\<close> (its regular-expression path, tokenizer data
  missing). When \<open>sent_tokenize\<close> works and returns no sentence for the empty text, the
  Token-Budget Chunker returns no chunk at all, and the two differ again.
\<close>

theorem similarity_fallback_zero_paragraphs_counterexample:
  "has_sklearn (bare_nlp\<lparr>has_sklearn := True\<rparr>) \<and>
   length (paragraphs (lit '' '')) < 4 \<and>
   chunk_by_semantic_similarity (bare_nlp\<lparr>has_sklearn := True\<rparr>) (lit '' '') 500 (3 / 10) = Inr [[]] \<and>
   chunk_by_tokens (bare_nlp\<lparr>has_sklearn := True\<rparr>) (lit '' '') 500 = Inr [lit '' ''] \<and>
   chunk_by_semantic_similarity (bare_nlp\<lparr>has_sklearn := True\<rparr>) (lit '' '') 500 (3 / 10) \<noteq>
     chunk_by_tokens (bare_nlp\<lparr>has_sklearn := True\<rparr>) (lit '' '') 500 \<and>
   length (paragraphs []) < 4 \<and>
   chunk_by_semantic_similarity (bare_nlp\<lparr>has_sklearn := True, sent_tokenize := (\<lambda>t. Inr [])\<rparr>) [] 500 (3 / 10) =
     Inr [[]] \<and>
   chunk_by_tokens (bare_nlp\<lparr>has_sklearn := True, sent_tokenize := (\<lambda>t. Inr [])\<rparr>) [] 500 = Inr []"
  by (simp add: chunk_by_semantic_similarity_def similarity_try_def paragraphs_def strip_def
      chunk_by_tokens_def split_sentences_def pack_sentences_def
      sentence_token_count_def split_ws_def bare_nlp_def lit_def isspace_def)

text \<open>
  C7. The Similarity Chunker returns what the Token-Budget Chunker returns on the whole
  text with the same \<open>max_tokens\<close> (the same chunks, or the same exception) when
  scikit-learn is unavailable; when it is available and the text has between one and three
  paragraphs; and when it is available, the text has at least one paragraph and the
  vectorizer raises. With no paragraph the result is \<open>[""]\<close> instead (see above).
\<close>

theorem similarity_fallback_is_token_chunker:
  "(\<not> has_sklearn env \<longrightarrow>
      chunk_by_semantic_similarity env text max_tokens similarity_threshold =
      chunk_by_tokens env text max_tokens) \<and>
   (has_sklearn env \<and> 1 \<le> length (paragraphs text) \<and> length (paragraphs text) < 4 \<longrightarrow>
      chunk_by_semantic_similarity env text max_tokens similarity_threshold =
      chunk_by_tokens env text max_tokens) \<and>
   (has_sklearn env \<and> 1 \<le> length (paragraphs text) \<and>
    (\<exists>e. tfidf_cosine env (paragraphs text) = Inl e) \<longrightarrow>
      chunk_by_semantic_similarity env text max_tokens similarity_threshold =
      chunk_by_tokens env text max_tokens)"
proof (intro conjI impI)
  assume "\<not> has_sklearn env"
  then show "chunk_by_semantic_similarity env text max_tokens similarity_threshold =
      chunk_by_tokens env text max_tokens"
    by (simp add: chunk_by_semantic_similarity_def)
next
  assume a: "has_sklearn env \<and> 1 \<le> length (paragraphs text) \<and> length (paragraphs text) < 4"
  then have "similarity_try env text max_tokens similarity_threshold = chunk_by_tokens env text max_tokens"
    by (auto simp: similarity_try_def Let_def)
  then show "chunk_by_semantic_similarity env text max_tokens similarity_threshold =
      chunk_by_tokens env text max_tokens"
    using a by (simp add: chunk_by_semantic_similarity_def split: sum.splits)
next
  assume a: "has_sklearn env \<and> 1 \<le> length (paragraphs text) \<and>
    (\<exists>e. tfidf_cosine env (paragraphs text) = Inl e)"
  then have "similarity_try env text max_tokens similarity_threshold = chunk_by_tokens env text max_tokens"
    by (auto simp: similarity_try_def Let_def)
  then show "chunk_by_semantic_similarity env text max_tokens similarity_threshold =
      chunk_by_tokens env text max_tokens"
    using a by (simp add: chunk_by_semantic_similarity_def split: sum.splits)
qed

section \<open>Similarity chunker: the greedy pass\<close>

text \<open>\<open>len(word_tokenize(paragraph))\<close>, where the tokenizer returns.\<close>

definition paragraph_token_count :: "nlp \<Rightarrow> str \<Rightarrow> nat" where
  "paragraph_token_count env p = (case word_tokenize env p of Inr ws \<Rightarrow> length ws | Inl e \<Rightarrow> 0)"

text \<open>The running token count of a chunk, given as the list of the indices of its paragraphs.\<close>

definition index_tokens :: "nlp \<Rightarrow> str list \<Rightarrow> nat list \<Rightarrow> nat" where
  "index_tokens env ps g = sum_list (map (\<lambda>i. paragraph_token_count env (ps ! i)) g)"

text \<open>
  The test of the loop for appending paragraph \<open>i\<close> to the chunk \<open>cur\<close>, whose anchor is
  its first paragraph.
\<close>

definition similarity_keep ::
  "nlp \<Rightarrow> (nat \<Rightarrow> nat \<Rightarrow> real) \<Rightarrow> int \<Rightarrow> real \<Rightarrow> str list \<Rightarrow> nat list \<Rightarrow> nat \<Rightarrow> bool" where
  "similarity_keep env sims m thr ps cur i \<longleftrightarrow>
     sims (hd cur) i > thr \<and>
     int (index_tokens env ps cur + paragraph_token_count env (ps ! i)) \<le> m"

text \<open>The same loop, keeping each chunk as the list of the indices of its paragraphs.\<close>

fun similarity_groups_loop ::
  "nlp \<Rightarrow> (nat \<Rightarrow> nat \<Rightarrow> real) \<Rightarrow> int \<Rightarrow> real \<Rightarrow> str list \<Rightarrow> nat list \<Rightarrow>
   nat list list \<Rightarrow> nat list \<Rightarrow> nat list list" where
  "similarity_groups_loop env sims m thr ps [] groups cur =
     (if cur \<noteq> [] then groups @ [cur] else groups)"
| "similarity_groups_loop env sims m thr ps (i # rest) groups cur =
     (if similarity_keep env sims m thr ps cur i
      then similarity_groups_loop env sims m thr ps rest groups (cur @ [i])
      else similarity_groups_loop env sims m thr ps rest (groups @ [cur]) [i])"

definition similarity_groups ::
  "nlp \<Rightarrow> (nat \<Rightarrow> nat \<Rightarrow> real) \<Rightarrow> int \<Rightarrow> real \<Rightarrow> str list \<Rightarrow> nat list list" where
  "similarity_groups env sims m thr ps =
     similarity_groups_loop env sims m thr ps [1 ..< length ps] [] [0]"

text \<open>The text of a chunk: its paragraphs joined by a blank line.\<close>

definition chunk_text :: "str list \<Rightarrow> nat list \<Rightarrow> str" where
  "chunk_text ps g = join [NL, NL] (map (\<lambda>i. ps ! i) g)"

text \<open>
  What holds of a chunk while it is being filled: every paragraph after the first passed
  the test against the paragraphs before it.
\<close>

definition similarity_group_ok ::
  "nlp \<Rightarrow> (nat \<Rightarrow> nat \<Rightarrow> real) \<Rightarrow> int \<Rightarrow> real \<Rightarrow> str list \<Rightarrow> nat list \<Rightarrow> bool" where
  "similarity_group_ok env sims m thr ps g \<longleftrightarrow>
     g \<noteq> [] \<and>
     (\<forall>j. 0 < j \<and> j < length g \<longrightarrow> similarity_keep env sims m thr ps (take j g) (g ! j))"

lemma index_tokens_snoc:
  "index_tokens env ps (cur @ [i]) = index_tokens env ps cur + paragraph_token_count env (ps ! i)"
  by (simp add: index_tokens_def)

lemma similarity_loop_groups:
  assumes "\<forall>i \<in> set idxs. \<exists>ws. word_tokenize env (ps ! i) = Inr ws" and "cur \<noteq> []"
  shows "(case similarity_loop env sims m thr ps idxs
             (map (chunk_text ps) groups, map (\<lambda>i. ps ! i) cur, index_tokens env ps cur, hd cur) of
            Inl e \<Rightarrow> Inl e
          | Inr (chunks, cc, cnt, idx) \<Rightarrow>
              Inr (if cc \<noteq> [] then chunks @ [join [NL, NL] cc] else chunks)) =
         Inr (map (chunk_text ps) (similarity_groups_loop env sims m thr ps idxs groups cur))"
  using assms
proof (induction idxs arbitrary: groups cur)
  case Nil
  show ?case by (simp add: chunk_text_def)
next
  case (Cons i rest)
  from Cons.prems(1) obtain ws where ws: "word_tokenize env (ps ! i) = Inr ws" by auto
  then have cnt: "paragraph_token_count env (ps ! i) = length ws"
    by (simp add: paragraph_token_count_def)
  have rest: "\<forall>i \<in> set rest. \<exists>ws. word_tokenize env (ps ! i) = Inr ws"
    using Cons.prems(1) by simp
  show ?case
  proof (cases "similarity_keep env sims m thr ps cur i")
    case True
    have step: "similarity_loop env sims m thr ps (i # rest)
             (map (chunk_text ps) groups, map (\<lambda>i. ps ! i) cur, index_tokens env ps cur, hd cur) =
          similarity_loop env sims m thr ps rest
             (map (chunk_text ps) groups, map (\<lambda>i. ps ! i) (cur @ [i]),
              index_tokens env ps (cur @ [i]), hd (cur @ [i]))"
      using True ws cnt Cons.prems(2) by (simp add: similarity_keep_def index_tokens_snoc Let_def)
    have grp: "similarity_groups_loop env sims m thr ps (i # rest) groups cur =
               similarity_groups_loop env sims m thr ps rest groups (cur @ [i])"
      using True by simp
    have ne: "cur @ [i] \<noteq> []" by simp
    show ?thesis unfolding step grp using Cons.IH [OF rest ne, of groups] .
  next
    case False
    have step: "similarity_loop env sims m thr ps (i # rest)
             (map (chunk_text ps) groups, map (\<lambda>i. ps ! i) cur, index_tokens env ps cur, hd cur) =
          similarity_loop env sims m thr ps rest
             (map (chunk_text ps) (groups @ [cur]), map (\<lambda>i. ps ! i) [i],
              index_tokens env ps [i], hd [i])"
      using False ws cnt
      by (auto simp add: similarity_keep_def index_tokens_def Let_def chunk_text_def)
    have grp: "similarity_groups_loop env sims m thr ps (i # rest) groups cur =
               similarity_groups_loop env sims m thr ps rest (groups @ [cur]) [i]"
      using False by simp
    have ne: "[i] \<noteq> []" by simp
    show ?thesis unfolding step grp using Cons.IH [OF rest ne, of "groups @ [cur]"] .
  qed
qed

lemma similarity_groups_loop_prefix:
  "similarity_groups_loop env sims m thr ps idxs groups cur =
   groups @ similarity_groups_loop env sims m thr ps idxs [] cur"
proof (induction idxs arbitrary: groups cur)
  case Nil
  show ?case by simp
next
  case (Cons i rest)
  show ?case
    using Cons.IH [of "groups @ [cur]" "[i]"] Cons.IH [of "[cur]" "[i]"] Cons.IH [of groups "cur @ [i]"]
    by simp
qed

lemma similarity_groups_loop_cut:
  "\<not> similarity_keep env sims m thr ps cur i \<Longrightarrow>
   similarity_groups_loop env sims m thr ps (i # rest) [] cur =
   cur # similarity_groups_loop env sims m thr ps rest [] [i]"
  using similarity_groups_loop_prefix [of env sims m thr ps rest "[cur]" "[i]"] by simp

lemma similarity_groups_loop_keep:
  "similarity_keep env sims m thr ps cur i \<Longrightarrow>
   similarity_groups_loop env sims m thr ps (i # rest) [] cur =
   similarity_groups_loop env sims m thr ps rest [] (cur @ [i])"
  by simp

lemma similarity_groups_loop_concat:
  "concat (similarity_groups_loop env sims m thr ps idxs groups cur) = concat groups @ cur @ idxs"
  by (induction idxs arbitrary: groups cur) auto

lemma similarity_groups_loop_hd:
  "cur \<noteq> [] \<Longrightarrow>
   similarity_groups_loop env sims m thr ps idxs [] cur \<noteq> [] \<and>
   hd (hd (similarity_groups_loop env sims m thr ps idxs [] cur)) = hd cur"
proof (induction idxs arbitrary: cur)
  case Nil
  then show ?case by simp
next
  case (Cons i rest)
  show ?case
  proof (cases "similarity_keep env sims m thr ps cur i")
    case True
    then show ?thesis using Cons.IH [of "cur @ [i]"] Cons.prems
      by (simp add: similarity_groups_loop_keep del: similarity_groups_loop.simps)
  next
    case False
    then show ?thesis using Cons.prems
      by (simp add: similarity_groups_loop_cut del: similarity_groups_loop.simps)
  qed
qed

lemma similarity_group_ok_snoc:
  assumes "similarity_group_ok env sims m thr ps cur" "similarity_keep env sims m thr ps cur i"
  shows "similarity_group_ok env sims m thr ps (cur @ [i])"
  unfolding similarity_group_ok_def
proof (intro conjI allI impI)
  show "cur @ [i] \<noteq> []" by simp
next
  fix j assume j: "0 < j \<and> j < length (cur @ [i])"
  show "similarity_keep env sims m thr ps (take j (cur @ [i])) ((cur @ [i]) ! j)"
  proof (cases "j < length cur")
    case True
    then show ?thesis using assms(1) j by (simp add: similarity_group_ok_def nth_append)
  next
    case False
    then have "j = length cur" using j by simp
    then show ?thesis using assms(2) by simp
  qed
qed

lemma similarity_groups_loop_ok:
  "similarity_group_ok env sims m thr ps cur \<Longrightarrow>
   (\<forall>g \<in> set (similarity_groups_loop env sims m thr ps idxs [] cur).
      similarity_group_ok env sims m thr ps g) \<and>
   successively (\<lambda>g h. \<not> similarity_keep env sims m thr ps g (hd h))
     (similarity_groups_loop env sims m thr ps idxs [] cur)"
proof (induction idxs arbitrary: cur)
  case Nil
  then show ?case by (simp add: similarity_group_ok_def)
next
  case (Cons i rest)
  show ?case
  proof (cases "similarity_keep env sims m thr ps cur i")
    case True
    from Cons.IH [OF similarity_group_ok_snoc [OF Cons.prems True]] True show ?thesis
      by (simp add: similarity_groups_loop_keep del: similarity_groups_loop.simps)
  next
    case False
    have single: "similarity_group_ok env sims m thr ps [i]"
      by (simp add: similarity_group_ok_def)
    note ih = Cons.IH [OF single]
    have hd: "similarity_groups_loop env sims m thr ps rest [] [i] \<noteq> [] \<and>
              hd (hd (similarity_groups_loop env sims m thr ps rest [] [i])) = i"
      using similarity_groups_loop_hd [of "[i]" env sims m thr ps rest] by simp
    show ?thesis
      using False ih hd Cons.prems
      by (simp add: similarity_groups_loop_cut successively_Cons del: similarity_groups_loop.simps)
  qed
qed

lemma similarity_keep_take:
  assumes "0 < j" "j < length g"
  shows "similarity_keep env sims m thr ps (take j g) (g ! j) \<longleftrightarrow>
         thr < sims (hd g) (g ! j) \<and> int (index_tokens env ps (take (Suc j) g)) \<le> m"
proof -
  have "take (Suc j) g = take j g @ [g ! j]" using assms(2) by (simp add: take_Suc_conv_app_nth)
  then have "index_tokens env ps (take (Suc j) g) =
             index_tokens env ps (take j g) + paragraph_token_count env (ps ! (g ! j))"
    by (simp add: index_tokens_snoc)
  moreover have "hd (take j g) = hd g" using assms(1) by (simp add: hd_take)
  ultimately show ?thesis by (simp add: similarity_keep_def)
qed

text \<open>
  C6. On the path without fallback (scikit-learn available, more than three paragraphs, the
  vectorizer and the word tokenizer return), the chunks are the joins of groups of
  consecutive paragraphs that partition the paragraph list in order (one pass from left to
  right). The anchor of a group is its first paragraph. Every later paragraph of a group has
  a similarity to the anchor strictly greater than the threshold, and the token count of
  the group up to and including it is at most \<open>max_tokens\<close>, the count starting anew with
  each group. The first paragraph of the next group failed that test against the group
  before it: its similarity to that group's anchor is at most the threshold, or it would
  take the count above \<open>max_tokens\<close>.
\<close>

theorem similarity_greedy_pass:
  assumes "has_sklearn env"
    and "3 < length (paragraphs text)"
    and "tfidf_cosine env (paragraphs text) = Inr sims"
    and "\<forall>p \<in> set (paragraphs text). \<exists>ws. word_tokenize env p = Inr ws"
  shows "chunk_by_semantic_similarity env text m thr =
           Inr (map (chunk_text (paragraphs text)) (similarity_groups env sims m thr (paragraphs text))) \<and>
         concat (similarity_groups env sims m thr (paragraphs text)) = [0 ..< length (paragraphs text)] \<and>
         (\<forall>g \<in> set (similarity_groups env sims m thr (paragraphs text)).
            g \<noteq> [] \<and>
            (\<forall>j. 0 < j \<and> j < length g \<longrightarrow>
               thr < sims (hd g) (g ! j) \<and>
               int (index_tokens env (paragraphs text) (take (Suc j) g)) \<le> m)) \<and>
         (\<forall>k. Suc k < length (similarity_groups env sims m thr (paragraphs text)) \<longrightarrow>
            \<not> (thr < sims (hd (similarity_groups env sims m thr (paragraphs text) ! k))
                        (hd (similarity_groups env sims m thr (paragraphs text) ! Suc k)) \<and>
               int (index_tokens env (paragraphs text) (similarity_groups env sims m thr (paragraphs text) ! k) +
                    paragraph_token_count env
                      (paragraphs text ! hd (similarity_groups env sims m thr (paragraphs text) ! Suc k))) \<le> m))"
proof -
  let ?ps = "paragraphs text"
  let ?G = "similarity_groups env sims m thr ?ps"
  have ne: "?ps \<noteq> []" using assms(2) by auto
  have tok: "\<forall>i \<in> set [1 ..< length ?ps]. \<exists>ws. word_tokenize env (?ps ! i) = Inr ws"
    using assms(4) by simp
  from assms(4) ne obtain ws0 where ws0: "word_tokenize env (?ps ! 0) = Inr ws0"
    by (metis length_greater_0_conv nth_mem)
  have t0: "index_tokens env ?ps [0] = length ws0"
    by (simp add: index_tokens_def paragraph_token_count_def ws0)
  have ne0: "[0::nat] \<noteq> []" by simp
  have run: "(case similarity_loop env sims m thr ?ps [1 ..< length ?ps] ([], [?ps ! 0], length ws0, 0) of
            Inl e \<Rightarrow> Inl e
          | Inr (chunks, cc, cnt, idx) \<Rightarrow>
              Inr (if cc \<noteq> [] then chunks @ [join [NL, NL] cc] else chunks)) =
         Inr (map (chunk_text ?ps) ?G)"
    using similarity_loop_groups [OF tok ne0, of sims m thr "[]"] t0
    by (simp add: similarity_groups_def)
  have tr: "similarity_try env text m thr = Inr (map (chunk_text ?ps) ?G)"
    using assms(2,3) ne ws0 run by (simp add: similarity_try_def Let_def)
  have a: "chunk_by_semantic_similarity env text m thr = Inr (map (chunk_text ?ps) ?G)"
    using assms(1) tr by (simp add: chunk_by_semantic_similarity_def)
  have "concat ?G = 0 # [1 ..< length ?ps]"
    by (simp add: similarity_groups_def similarity_groups_loop_concat)
  also have "\<dots> = [0 ..< length ?ps]" using ne by (simp add: upt_conv_Cons)
  finally have b: "concat ?G = [0 ..< length ?ps]" .
  have ok0: "similarity_group_ok env sims m thr ?ps [0]" by (simp add: similarity_group_ok_def)
  note inv = similarity_groups_loop_ok [OF ok0, of "[1 ..< length ?ps]"]
  have c: "\<forall>g \<in> set ?G. g \<noteq> [] \<and>
            (\<forall>j. 0 < j \<and> j < length g \<longrightarrow>
               thr < sims (hd g) (g ! j) \<and> int (index_tokens env ?ps (take (Suc j) g)) \<le> m)"
  proof (intro ballI conjI allI impI)
    fix g assume "g \<in> set ?G"
    then have ok: "similarity_group_ok env sims m thr ?ps g"
      using inv by (simp add: similarity_groups_def)
    then show "g \<noteq> []" by (simp add: similarity_group_ok_def)
    fix j assume j: "0 < j \<and> j < length g"
    then have "similarity_keep env sims m thr ?ps (take j g) (g ! j)"
      using ok by (simp add: similarity_group_ok_def)
    then have both: "thr < sims (hd g) (g ! j) \<and> int (index_tokens env ?ps (take (Suc j) g)) \<le> m"
      using similarity_keep_take [of j g env sims m thr ?ps] j by simp
    from both show "thr < sims (hd g) (g ! j)" by simp
    from both show "int (index_tokens env ?ps (take (Suc j) g)) \<le> m" by simp
  qed
  have d: "\<forall>k. Suc k < length ?G \<longrightarrow>
            \<not> (thr < sims (hd (?G ! k)) (hd (?G ! Suc k)) \<and>
               int (index_tokens env ?ps (?G ! k) +
                    paragraph_token_count env (?ps ! hd (?G ! Suc k))) \<le> m)"
    using inv by (simp add: similarity_groups_def successively_conv_nth similarity_keep_def)
  show ?thesis using a b c d by blast
qed

section \<open>Similarity chunker: worked examples\<close>

text \<open>
  An environment for running the similarity pass: scikit-learn is available, the word
  tokenizer splits at whitespace, and the similarity matrix (symmetric, one on the
  diagonal) gives \<open>1/2\<close> between paragraphs 0 and 1 and between 2 and 3, exactly \<open>3/10\<close>
  between 0 and 2, and zero elsewhere. The sentence tokenizer has no data, as in
  \<open>bare_nlp\<close>.
\<close>

definition demo_similarities :: "nat \<Rightarrow> nat \<Rightarrow> real" where
  "demo_similarities i j =
     (if i = j then 1
      else if (i = 0 \<and> j = 1) \<or> (i = 1 \<and> j = 0) \<or> (i = 2 \<and> j = 3) \<or> (i = 3 \<and> j = 2) then 1 / 2
      else if (i = 0 \<and> j = 2) \<or> (i = 2 \<and> j = 0) then 3 / 10
      else 0)"

definition demo_nlp :: nlp where
  "demo_nlp = bare_nlp\<lparr>has_sklearn := True,
     word_tokenize := (\<lambda>t. Inr (split_ws t)),
     tfidf_cosine := (\<lambda>ps. Inr demo_similarities)\<rparr>"

definition four_paragraphs :: str where
  "four_paragraphs = lit ''a b'' @ [NL, NL] @ lit ''c'' @ [NL, NL] @ lit ''d'' @ [NL, NL] @ lit ''e f''"

lemma four_paragraphs_paragraphs:
  "paragraphs four_paragraphs = [lit ''a b'', lit ''c'', lit ''d'', lit ''e f'']"
  by (simp add: four_paragraphs_def paragraphs_def strip_def lit_def isspace_def)

lemma demo_token_counts:
  "paragraph_token_count demo_nlp (lit ''a b'') = 2"
  "paragraph_token_count demo_nlp (lit ''c'') = 1"
  "paragraph_token_count demo_nlp (lit ''d'') = 1"
  "paragraph_token_count demo_nlp (lit ''e f'') = 2"
  by (simp_all add: paragraph_token_count_def demo_nlp_def split_ws_def lit_def isspace_def)

theorem similarity_greedy_pass_witness:
  "has_sklearn demo_nlp \<and>
   paragraphs four_paragraphs = [lit ''a b'', lit ''c'', lit ''d'', lit ''e f''] \<and>
   tfidf_cosine demo_nlp (paragraphs four_paragraphs) = Inr demo_similarities \<and>
   demo_similarities 0 1 = 1 / 2 \<and> demo_similarities 0 2 = 3 / 10 \<and>
   similarity_groups demo_nlp demo_similarities 500 (3 / 10) (paragraphs four_paragraphs) =
     [[0, 1], [2, 3]] \<and>
   chunk_by_semantic_similarity demo_nlp four_paragraphs 500 (3 / 10) =
     Inr [lit ''a b'' @ [NL, NL] @ lit ''c'', lit ''d'' @ [NL, NL] @ lit ''e f''] \<and>
   similarity_groups demo_nlp demo_similarities 2 (3 / 10) (paragraphs four_paragraphs) =
     [[0], [1], [2], [3]] \<and>
   chunk_by_semantic_similarity demo_nlp four_paragraphs 2 (3 / 10) =
     Inr [lit ''a b'', lit ''c'', lit ''d'', lit ''e f'']"
proof -
  let ?ps = "[lit ''a b'', lit ''c'', lit ''d'', lit ''e f'']"
  note p = four_paragraphs_paragraphs
  have h1: "has_sklearn demo_nlp" by (simp add: demo_nlp_def)
  have h2: "3 < length (paragraphs four_paragraphs)" by (simp add: p)
  have h3: "tfidf_cosine demo_nlp (paragraphs four_paragraphs) = Inr demo_similarities"
    by (simp add: demo_nlp_def)
  have h4: "\<forall>p \<in> set (paragraphs four_paragraphs). \<exists>ws. word_tokenize demo_nlp p = Inr ws"
    by (simp add: demo_nlp_def)
  have s: "demo_similarities 0 1 = 1 / 2" "demo_similarities 0 2 = 3 / 10"
      "demo_similarities 1 2 = 0" "demo_similarities 2 3 = 1 / 2"
    by (simp_all add: demo_similarities_def)
  have g500: "similarity_groups demo_nlp demo_similarities 500 (3 / 10) ?ps = [[0, 1], [2, 3]]"
    by (simp add: similarity_groups_def similarity_keep_def index_tokens_def demo_token_counts
        demo_similarities_def upt_conv_Cons)
  have g2: "similarity_groups demo_nlp demo_similarities 2 (3 / 10) ?ps = [[0], [1], [2], [3]]"
    by (simp add: similarity_groups_def similarity_keep_def index_tokens_def demo_token_counts
        demo_similarities_def upt_conv_Cons)
  have c500: "chunk_by_semantic_similarity demo_nlp four_paragraphs 500 (3 / 10) =
     Inr [lit ''a b'' @ [NL, NL] @ lit ''c'', lit ''d'' @ [NL, NL] @ lit ''e f'']"
    using similarity_greedy_pass [OF h1 h2 h3 h4, of 500 "3 / 10"]
    unfolding p g500 by (simp add: chunk_text_def)
  have c2: "chunk_by_semantic_similarity demo_nlp four_paragraphs 2 (3 / 10) =
     Inr [lit ''a b'', lit ''c'', lit ''d'', lit ''e f'']"
    using similarity_greedy_pass [OF h1 h2 h3 h4, of 2 "3 / 10"]
    unfolding p g2 by (simp add: chunk_text_def)
  show ?thesis using h1 h3 s g500 g2 c500 c2 unfolding p by simp
qed

theorem similarity_fallback_is_token_chunker_witness:
  "\<not> has_sklearn bare_nlp \<and>
   chunk_by_semantic_similarity bare_nlp four_paragraphs 500 (3 / 10) =
     chunk_by_tokens bare_nlp four_paragraphs 500 \<and>
   has_sklearn demo_nlp \<and>
   paragraphs (lit ''a b'' @ [NL, NL] @ lit ''c'') = [lit ''a b'', lit ''c''] \<and>
   chunk_by_semantic_similarity demo_nlp (lit ''a b'' @ [NL, NL] @ lit ''c'') 500 (3 / 10) =
     chunk_by_tokens demo_nlp (lit ''a b'' @ [NL, NL] @ lit ''c'') 500 \<and>
   tfidf_cosine (demo_nlp\<lparr>tfidf_cosine := (\<lambda>ps. Inl (OtherError []))\<rparr>) (paragraphs four_paragraphs) =
     Inl (OtherError []) \<and>
   length (paragraphs four_paragraphs) = 4 \<and>
   chunk_by_semantic_similarity (demo_nlp\<lparr>tfidf_cosine := (\<lambda>ps. Inl (OtherError []))\<rparr>)
       four_paragraphs 500 (3 / 10) =
     chunk_by_tokens (demo_nlp\<lparr>tfidf_cosine := (\<lambda>ps. Inl (OtherError []))\<rparr>) four_paragraphs 500"
proof -
  let ?t2 = "lit ''a b'' @ [NL, NL] @ lit ''c''"
  let ?E = "demo_nlp\<lparr>tfidf_cosine := (\<lambda>ps. Inl (OtherError []))\<rparr>"
  have n: "\<not> has_sklearn bare_nlp" by (simp add: bare_nlp_def)
  have h: "has_sklearn demo_nlp" by (simp add: demo_nlp_def)
  have hE: "has_sklearn ?E" by (simp add: demo_nlp_def)
  have p2: "paragraphs ?t2 = [lit ''a b'', lit ''c'']"
    by (simp add: paragraphs_def strip_def lit_def isspace_def)
  have v: "tfidf_cosine ?E (paragraphs four_paragraphs) = Inl (OtherError [])" by simp
  have l4: "length (paragraphs four_paragraphs) = 4" by (simp add: four_paragraphs_paragraphs)
  have a: "chunk_by_semantic_similarity bare_nlp four_paragraphs 500 (3 / 10) =
     chunk_by_tokens bare_nlp four_paragraphs 500"
    using similarity_fallback_is_token_chunker [of bare_nlp four_paragraphs 500 "3 / 10"] n by blast
  have b: "chunk_by_semantic_similarity demo_nlp ?t2 500 (3 / 10) = chunk_by_tokens demo_nlp ?t2 500"
    using similarity_fallback_is_token_chunker [of demo_nlp ?t2 500 "3 / 10"] h p2 by simp
  have c: "chunk_by_semantic_similarity ?E four_paragraphs 500 (3 / 10) =
     chunk_by_tokens ?E four_paragraphs 500"
    using similarity_fallback_is_token_chunker [of ?E four_paragraphs 500 "3 / 10"] hE v l4 by simp
  show ?thesis using n h p2 v l4 a b c by simp
qed

section \<open>Keyword extractor\<close>

text \<open>
  \<open>string.punctuation\<close>, the 32 ASCII punctuation characters
  \<^verbatim>\<open>!"#$%&'()*+,-./:;<=>?@[\]^_`{|}~\<close>, as code points.
\<close>

definition punctuation :: str where
  "punctuation = [33 ..< 48] @ [58 ..< 65] @ [91 ..< 97] @ [123 ..< 127]"

text \<open>
  The set literal added to the stop words. Its elements are the one-character strings
  U+2022, U+25A0, U+25BA, U+25CF, U+25C6, U+00BB, the double quote (written twice), then
  the two-character string of a comma and a space (the source text \<^verbatim>\<open>''', '''\<close> is one
  triple-quoted literal), U+2013 and U+2014.
\<close>

definition glyphs :: "str list" where
  "glyphs = [[8226], [9632], [9658], [9679], [9670], [187], [34], [34], [44, 32], [8211], [8212]]"

text \<open>
  \<open>stopwords.words('english')\<close>; on a \<open>LookupError\<close> the list is downloaded and the call
  repeated. Any other exception, and any exception of the second call, leaves the block.
\<close>

definition load_stopwords :: "nlp \<Rightarrow> exn + str list" where
  "load_stopwords env =
     (case stopwords_words env of
        Inr ws \<Rightarrow> Inr ws
      | Inl (LookupError msg) \<Rightarrow> stopwords_words_retry env
      | Inl (OtherError msg) \<Rightarrow> Inl (OtherError msg))"

text \<open>
  \<open>Counter(words)\<close>: a dictionary in insertion order. Counting a word that is already a
  key adds one to its count in place; a new word is added at the end with count one.
\<close>

fun counter_incr :: "str \<Rightarrow> (str \<times> nat) list \<Rightarrow> (str \<times> nat) list" where
  "counter_incr w [] = [(w, 1)]"
| "counter_incr w ((k, c) # kcs) =
     (if k = w then (k, c + 1) # kcs else (k, c) # counter_incr w kcs)"

definition Counter :: "str list \<Rightarrow> (str \<times> nat) list" where
  "Counter words = foldl (\<lambda>d w. counter_incr w d) [] words"

text \<open>
  \<open>word_freq.most_common(n)\<close> is \<open>heapq.nlargest(n, items, key=count)\<close>: the first \<open>n\<close>
  items of the items sorted by decreasing count, items of equal count staying in
  dictionary order; no item when \<open>n \<le> 0\<close>.
\<close>

definition most_common :: "(str \<times> nat) list \<Rightarrow> int \<Rightarrow> (str \<times> nat) list" where
  "most_common items n = take (nat n) (sort_key (\<lambda>(w, c). - int c) items)"

text \<open>\<open>str(e)\<close>: the message of the exception.\<close>

fun exn_str :: "exn \<Rightarrow> str" where
  "exn_str (LookupError msg) = msg"
| "exn_str (OtherError msg) = msg"

definition extract_keywords :: "nlp \<Rightarrow> str \<Rightarrow> int \<Rightarrow> str list" where
  "extract_keywords env text max_keywords =
     (case load_stopwords env of
        Inl e \<Rightarrow> [lit ''Error extracting keywords: '' @ exn_str e]
      | Inr sw \<Rightarrow>
          (let stops = sw @ map (\<lambda>c. [c]) punctuation @ glyphs in
           case word_tokenize env (lower env text) of
             Inl e \<Rightarrow> [lit ''Error extracting keywords: '' @ exn_str e]
           | Inr words \<Rightarrow>
               (let words = filter (\<lambda>word. word \<notin> set stops \<and> length word > 2) words;
                    word_freq = Counter words;
                    keywords = most_common word_freq max_keywords
                in map fst keywords)))"

text \<open>
  The tokens that remain: not a stop word, not a punctuation character, not one of the
  glyphs, and longer than two characters.
\<close>

definition qualifying :: "str list \<Rightarrow> str \<Rightarrow> bool" where
  "qualifying sw w \<longleftrightarrow>
     w \<notin> set sw \<and> \<not> (\<exists>c \<in> set punctuation. w = [c]) \<and> w \<notin> set glyphs \<and> 2 < length w"

text \<open>The position of the first occurrence of a token.\<close>

definition first_pos :: "str \<Rightarrow> str list \<Rightarrow> nat" where
  "first_pos w ws = length (takeWhile (\<lambda>x. x \<noteq> w) ws)"

text \<open>
  The order of the keywords: more frequent first, and of two tokens of the same frequency
  the one met first.
\<close>

definition ranks_before :: "str list \<Rightarrow> str \<Rightarrow> str \<Rightarrow> bool" where
  "ranks_before ws a b \<longleftrightarrow>
     count_list ws b < count_list ws a \<or>
     (count_list ws a = count_list ws b \<and> first_pos a ws < first_pos b ws)"

text \<open>All remaining tokens in the order of \<open>most_common\<close>.\<close>

definition keyword_ranking :: "str list \<Rightarrow> str list" where
  "keyword_ranking ws = map fst (sort_key (\<lambda>(w, c). - int c) (Counter ws))"

section \<open>Keyword extractor: properties\<close>

lemma counter_incr_keys:
  "map fst (counter_incr w d) = (if w \<in> set (map fst d) then map fst d else map fst d @ [w])"
proof (induction d)
  case Nil
  show ?case by simp
next
  case (Cons kc d)
  obtain k c where kc: "kc = (k, c)" by (cases kc)
  show ?case using Cons unfolding kc by (cases "k = w") force+
qed

lemma counter_incr_lookup:
  "map_of (counter_incr w d) x =
     (if x = w then Some (case map_of d w of None \<Rightarrow> 1 | Some c \<Rightarrow> c + 1) else map_of d x)"
  by (induction d) auto

lemma Counter_snoc: "Counter (ws @ [w]) = counter_incr w (Counter ws)"
  by (simp add: Counter_def)

lemma Counter_keys_set: "set (map fst (Counter ws)) = set ws"
proof (induction ws rule: rev_induct)
  case Nil
  show ?case by (simp add: Counter_def)
next
  case (snoc w ws)
  then show ?case by (auto simp add: Counter_snoc counter_incr_keys simp del: set_map)
qed

lemma Counter_keys_distinct: "distinct (map fst (Counter ws))"
proof (induction ws rule: rev_induct)
  case Nil
  show ?case by (simp add: Counter_def)
next
  case (snoc w ws)
  then show ?case by (simp add: Counter_snoc counter_incr_keys del: set_map)
qed

lemma Counter_lookup:
  "map_of (Counter ws) x = (if x \<in> set ws then Some (count_list ws x) else None)"
proof (induction ws rule: rev_induct)
  case Nil
  show ?case by (simp add: Counter_def)
next
  case (snoc w ws)
  then show ?case by (auto simp add: Counter_snoc counter_incr_lookup)
qed

lemma Counter_count:
  assumes "(w, c) \<in> set (Counter ws)"
  shows "c = count_list ws w"
proof -
  have "map_of (Counter ws) w = Some c"
    using assms Counter_keys_distinct [of ws] by simp
  then show ?thesis by (simp add: Counter_lookup split: if_splits)
qed

lemma first_pos_append_mem: "a \<in> set ws \<Longrightarrow> first_pos a (ws @ vs) = first_pos a ws"
  by (induction ws) (auto simp: first_pos_def)

lemma first_pos_less: "a \<in> set ws \<Longrightarrow> first_pos a ws < length ws"
  by (induction ws) (auto simp: first_pos_def)

lemma first_pos_new: "w \<notin> set ws \<Longrightarrow> first_pos w (ws @ [w]) = length ws"
  by (induction ws) (auto simp: first_pos_def)

lemma Counter_keys_order:
  "sorted_wrt (\<lambda>a b. first_pos a ws < first_pos b ws) (map fst (Counter ws))"
proof (induction ws rule: rev_induct)
  case Nil
  show ?case by (simp add: Counter_def)
next
  case (snoc w ws)
  have old: "sorted_wrt (\<lambda>a b. first_pos a (ws @ [w]) < first_pos b (ws @ [w])) (map fst (Counter ws))"
    using snoc
    by (rule sorted_wrt_mono_rel [rotated]) (simp add: Counter_keys_set first_pos_append_mem del: set_map)
  show ?case
  proof (cases "w \<in> set ws")
    case True
    then show ?thesis using old
      by (simp add: Counter_snoc counter_incr_keys Counter_keys_set del: set_map)
  next
    case False
    have "\<forall>a \<in> set (map fst (Counter ws)). first_pos a (ws @ [w]) < first_pos w (ws @ [w])"
      using False
      by (simp add: Counter_keys_set first_pos_append_mem first_pos_less first_pos_new del: set_map)
    then show ?thesis using old False
      by (simp add: Counter_snoc counter_incr_keys Counter_keys_set sorted_wrt_append del: set_map)
  qed
qed

lemma insort_key_lex:
  fixes f :: "'a \<Rightarrow> int"
  assumes "sorted_wrt (\<lambda>a b. f a < f b \<or> (f a = f b \<and> R a b)) ys" and "\<forall>y \<in> set ys. R x y"
  shows "sorted_wrt (\<lambda>a b. f a < f b \<or> (f a = f b \<and> R a b)) (insort_key f x ys)"
  using assms
proof (induction ys)
  case Nil
  show ?case by simp
next
  case (Cons y ys)
  show ?case
  proof (cases "f x \<le> f y")
    case True
    have "\<forall>z \<in> set ys. f y \<le> f z" using Cons.prems(1) by auto
    then have "\<forall>z \<in> set (y # ys). f x < f z \<or> (f x = f z \<and> R x z)"
      using True Cons.prems(2) by fastforce
    then show ?thesis using True Cons.prems(1) by simp
  next
    case False
    have ih: "sorted_wrt (\<lambda>a b. f a < f b \<or> (f a = f b \<and> R a b)) (insort_key f x ys)"
      using Cons.IH Cons.prems by simp
    have "\<forall>z \<in> set (insort_key f x ys). f y < f z \<or> (f y = f z \<and> R y z)"
      using False Cons.prems(1) by (auto simp: set_insort_key)
    then show ?thesis using False ih by simp
  qed
qed

lemma sort_key_lex:
  fixes f :: "'a \<Rightarrow> int"
  assumes "sorted_wrt R xs"
  shows "sorted_wrt (\<lambda>a b. f a < f b \<or> (f a = f b \<and> R a b)) (sort_key f xs)"
  using assms
proof (induction xs)
  case Nil
  show ?case by simp
next
  case (Cons x xs)
  have "\<forall>y \<in> set (sort_key f xs). R x y" using Cons.prems by simp
  then show ?case using Cons insort_key_lex [of f R "sort_key f xs" x] by simp
qed

lemma sorted_wrt_irrefl_distinct:
  "sorted_wrt P xs \<Longrightarrow> \<forall>x. \<not> P x x \<Longrightarrow> distinct xs"
  by (induction xs) auto

lemma keyword_ranking_set: "set (keyword_ranking ws) = set ws"
  using Counter_keys_set [of ws] by (simp add: keyword_ranking_def del: set_map) (simp add: image_def)

lemma keyword_ranking_sorted: "sorted_wrt (ranks_before ws) (keyword_ranking ws)"
proof -
  let ?f = "\<lambda>(w, c). - int c"
  let ?R = "\<lambda>p q. first_pos (fst p) ws < first_pos (fst q) ws"
  have "sorted_wrt ?R (Counter ws)"
    using Counter_keys_order [of ws] by (simp add: sorted_wrt_map)
  then have lex: "sorted_wrt (\<lambda>a b. ?f a < ?f b \<or> (?f a = ?f b \<and> ?R a b)) (sort_key ?f (Counter ws))"
    by (rule sort_key_lex)
  have "sorted_wrt (\<lambda>p q. ranks_before ws (fst p) (fst q)) (sort_key ?f (Counter ws))"
  proof (rule sorted_wrt_mono_rel [OF _ lex])
    fix p q
    assume p: "p \<in> set (sort_key ?f (Counter ws))" and q: "q \<in> set (sort_key ?f (Counter ws))"
      and s: "?f p < ?f q \<or> (?f p = ?f q \<and> ?R p q)"
    obtain a c where pc: "p = (a, c)" by (cases p)
    obtain b d where qd: "q = (b, d)" by (cases q)
    have c: "c = count_list ws a" using p pc Counter_count [of a c ws] by simp
    have d: "d = count_list ws b" using q qd Counter_count [of b d ws] by simp
    show "ranks_before ws (fst p) (fst q)"
      using s unfolding pc qd c d by (auto simp: ranks_before_def)
  qed
  then show ?thesis by (simp add: keyword_ranking_def sorted_wrt_map)
qed

lemma keyword_ranking_distinct: "distinct (keyword_ranking ws)"
  using keyword_ranking_sorted [of ws]
  by (rule sorted_wrt_irrefl_distinct) (simp add: ranks_before_def)

lemma stops_qualifying:
  "(w \<notin> set (sw @ map (\<lambda>c. [c]) punctuation @ glyphs) \<and> 2 < length w) = qualifying sw w"
  by (auto simp: qualifying_def)

text \<open>
  C8. When the stop-word list loads and the word tokenizer returns on the lowercased text,
  the Keyword Extractor returns the first \<open>max_keywords\<close> entries of a ranking of the
  remaining tokens (the tokens of the lowercased text that are not stop words, punctuation
  characters or glyphs and are longer than two characters). The ranking lists every
  remaining token once, more frequent tokens first and tokens of equal frequency in the
  order in which they are first met. For \<open>max_keywords = 0\<close>, or when no token remains,
  the result is empty.
\<close>

theorem keywords_most_frequent_first:
  assumes "load_stopwords env = Inr sw"
    and "word_tokenize env (lower env text) = Inr ws"
  shows "extract_keywords env text max_keywords =
           take (nat max_keywords) (keyword_ranking (filter (qualifying sw) ws)) \<and>
         set (keyword_ranking (filter (qualifying sw) ws)) = {w \<in> set ws. qualifying sw w} \<and>
         distinct (keyword_ranking (filter (qualifying sw) ws)) \<and>
         sorted_wrt (ranks_before (filter (qualifying sw) ws))
           (keyword_ranking (filter (qualifying sw) ws)) \<and>
         (max_keywords = 0 \<or> filter (qualifying sw) ws = [] \<longrightarrow>
            extract_keywords env text max_keywords = [])"
proof -
  let ?kept = "filter (qualifying sw) ws"
  have a: "extract_keywords env text max_keywords = take (nat max_keywords) (keyword_ranking ?kept)"
    using assms
    by (simp add: extract_keywords_def Let_def most_common_def keyword_ranking_def take_map
        stops_qualifying del: set_append)
  have b: "set (keyword_ranking ?kept) = {w \<in> set ws. qualifying sw w}"
    by (simp add: keyword_ranking_set)
  have e: "max_keywords = 0 \<or> ?kept = [] \<longrightarrow> extract_keywords env text max_keywords = []"
    unfolding a by (auto simp: keyword_ranking_def Counter_def)
  show ?thesis
    using a b e keyword_ranking_distinct [of ?kept] keyword_ranking_sorted [of ?kept] by blast
qed

section \<open>Keyword extractor: a worked example\<close>

text \<open>
  An environment with a stop-word list of two words, a word tokenizer that splits at
  whitespace, and a \<open>lower\<close> that maps the ASCII capital letters.
\<close>

definition keyword_nlp :: nlp where
  "keyword_nlp = bare_nlp\<lparr>
     word_tokenize := (\<lambda>t. Inr (split_ws t)),
     stopwords_words := Inr [lit ''the'', lit ''on''],
     lower := map (\<lambda>c. if 65 \<le> c \<and> c \<le> 90 then c + 32 else c)\<rparr>"

theorem keywords_most_frequent_first_witness:
  "load_stopwords keyword_nlp = Inr [lit ''the'', lit ''on''] \<and>
   word_tokenize keyword_nlp (lower keyword_nlp (lit ''The cat sat on the mat - cat sat dog'')) =
     Inr [lit ''the'', lit ''cat'', lit ''sat'', lit ''on'', lit ''the'', lit ''mat'', lit ''-'',
          lit ''cat'', lit ''sat'', lit ''dog''] \<and>
   filter (qualifying [lit ''the'', lit ''on''])
     [lit ''the'', lit ''cat'', lit ''sat'', lit ''on'', lit ''the'', lit ''mat'', lit ''-'',
      lit ''cat'', lit ''sat'', lit ''dog''] =
     [lit ''cat'', lit ''sat'', lit ''mat'', lit ''cat'', lit ''sat'', lit ''dog''] \<and>
   keyword_ranking [lit ''cat'', lit ''sat'', lit ''mat'', lit ''cat'', lit ''sat'', lit ''dog''] =
     [lit ''cat'', lit ''sat'', lit ''mat'', lit ''dog''] \<and>
   extract_keywords keyword_nlp (lit ''The cat sat on the mat - cat sat dog'') 3 =
     [lit ''cat'', lit ''sat'', lit ''mat''] \<and>
   extract_keywords keyword_nlp (lit ''The cat sat on the mat - cat sat dog'') 0 = []"
proof -
  let ?t = "lit ''The cat sat on the mat - cat sat dog''"
  let ?sw = "[lit ''the'', lit ''on'']"
  let ?ws = "[lit ''the'', lit ''cat'', lit ''sat'', lit ''on'', lit ''the'', lit ''mat'', lit ''-'',
          lit ''cat'', lit ''sat'', lit ''dog'']"
  let ?kept = "[lit ''cat'', lit ''sat'', lit ''mat'', lit ''cat'', lit ''sat'', lit ''dog'']"
  have s: "load_stopwords keyword_nlp = Inr ?sw"
    by (simp add: load_stopwords_def keyword_nlp_def)
  have w: "word_tokenize keyword_nlp (lower keyword_nlp ?t) = Inr ?ws"
    by (simp add: keyword_nlp_def split_ws_def lit_def isspace_def)
  have k: "filter (qualifying ?sw) ?ws = ?kept"
    by (simp add: qualifying_def glyphs_def lit_def)
  have r: "keyword_ranking ?kept = [lit ''cat'', lit ''sat'', lit ''mat'', lit ''dog'']"
    by (simp add: keyword_ranking_def Counter_def lit_def)
  have e3: "extract_keywords keyword_nlp ?t 3 = [lit ''cat'', lit ''sat'', lit ''mat'']"
    using keywords_most_frequent_first [OF s w, of 3] unfolding k r by simp
  have e0: "extract_keywords keyword_nlp ?t 0 = []"
    using keywords_most_frequent_first [OF s w, of 0] unfolding k r by simp
  show ?thesis using s w k r e3 e0 by simp
qed

section \<open>Metadata annotator\<close>

text \<open>
  The part of the Streamlit session state that \<open>add_metadata\<close> reads: the keys
  \<open>extract_keywords\<close> and \<open>max_keywords\<close>, each of which may be absent.
\<close>

record session_state =
  extract_keywords_flag :: "bool option"
  max_keywords_value :: "int option"

text \<open>The decimal numeral of a natural number, as an f-string writes an \<open>int\<close>.\<close>

fun str_of_nat :: "nat \<Rightarrow> str" where
  "str_of_nat n = (if n < 10 then [48 + n] else str_of_nat (n div 10) @ [48 + n mod 10])"

declare str_of_nat.simps [simp del]

text \<open>The value that a decimal numeral denotes.\<close>

definition decimal_value :: "str \<Rightarrow> nat" where
  "decimal_value ds = foldl (\<lambda>a d. 10 * a + (d - 48)) 0 ds"

text \<open>
  The line \<open>KEYWORDS: ...\<close>, present when keyword extraction is switched on; the number of
  keywords is taken from the session state, ten when the key is absent.
\<close>

definition keywords_section :: "nlp \<Rightarrow> session_state \<Rightarrow> str \<Rightarrow> str" where
  "keywords_section env ss chunk =
     (if extract_keywords_flag ss = Some True
      then (let max_kw = (case max_keywords_value ss of Some k \<Rightarrow> k | None \<Rightarrow> 10);
                keywords = extract_keywords env chunk max_kw;
                keywords_str = join (lit '', '') keywords
            in lit ''KEYWORDS: '' @ keywords_str @ [NL])
      else [])"

text \<open>
  The loop \<open>for i, chunk in enumerate(chunks)\<close>. The call \<open>word_tokenize(chunk)\<close> is not
  guarded: when it raises, \<open>add_metadata\<close> raises.
\<close>

fun add_metadata_loop ::
  "nlp \<Rightarrow> session_state \<Rightarrow> nat \<Rightarrow> str \<Rightarrow> str \<Rightarrow> (nat \<times> str) list \<Rightarrow> str list \<Rightarrow> exn + str list" where
  "add_metadata_loop env ss total_chunks filename chunking_method [] result = Inr result"
| "add_metadata_loop env ss total_chunks filename chunking_method ((i, chunk) # rest) result =
     (let keywords_section = keywords_section env ss chunk in
      case word_tokenize env chunk of
        Inl e \<Rightarrow> Inl e
      | Inr ws \<Rightarrow>
          (let token_count = length ws;
               metadata =
                 lit ''---'' @ [NL] @
                 lit ''CHUNK: '' @ str_of_nat (i + 1) @ lit ''/'' @ str_of_nat total_chunks @ [NL] @
                 lit ''SOURCE: '' @ filename @ [NL] @
                 lit ''CHUNKING_METHOD: '' @ chunking_method @ [NL] @
                 lit ''TOKENS: ~'' @ str_of_nat token_count @ [NL] @
                 keywords_section @ lit ''---'' @ [NL] @
                 [NL]
           in add_metadata_loop env ss total_chunks filename chunking_method rest
                (result @ [metadata @ chunk])))"

definition add_metadata :: "nlp \<Rightarrow> session_state \<Rightarrow> str list \<Rightarrow> str \<Rightarrow> str \<Rightarrow> exn + str list" where
  "add_metadata env ss chunks filename chunking_method =
     add_metadata_loop env ss (length chunks) filename chunking_method (enumerate 0 chunks) []"

text \<open>\<open>len(word_tokenize(chunk))\<close>, where the tokenizer returns.\<close>

definition chunk_token_count :: "nlp \<Rightarrow> str \<Rightarrow> nat" where
  "chunk_token_count env chunk = (case word_tokenize env chunk of Inr ws \<Rightarrow> length ws | Inl e \<Rightarrow> 0)"

text \<open>The header of chunk \<open>i\<close> (counted from zero) of \<open>total\<close> chunks, up to the blank line.\<close>

definition chunk_header :: "nlp \<Rightarrow> session_state \<Rightarrow> nat \<Rightarrow> str \<Rightarrow> str \<Rightarrow> nat \<Rightarrow> str \<Rightarrow> str" where
  "chunk_header env ss total_chunks filename chunking_method i chunk =
     lit ''---'' @ [NL] @
     lit ''CHUNK: '' @ str_of_nat (i + 1) @ lit ''/'' @ str_of_nat total_chunks @ [NL] @
     lit ''SOURCE: '' @ filename @ [NL] @
     lit ''CHUNKING_METHOD: '' @ chunking_method @ [NL] @
     lit ''TOKENS: ~'' @ str_of_nat (chunk_token_count env chunk) @ [NL] @
     keywords_section env ss chunk @ lit ''---'' @ [NL]"

section \<open>Metadata annotator: properties\<close>

lemma decimal_value_str_of_nat: "decimal_value (str_of_nat n) = n"
proof (induction n rule: str_of_nat.induct)
  case (1 n)
  show ?case
  proof (cases "n < 10")
    case True
    then show ?thesis by (simp add: str_of_nat.simps [of n] decimal_value_def)
  next
    case False
    have "decimal_value (str_of_nat n) = 10 * decimal_value (str_of_nat (n div 10)) + n mod 10"
      using False by (simp add: str_of_nat.simps [of n] decimal_value_def)
    then show ?thesis using 1 False by simp
  qed
qed

lemma add_metadata_loop_result:
  assumes "\<forall>ic \<in> set ics. \<exists>ws. word_tokenize env (snd ic) = Inr ws"
  shows "add_metadata_loop env ss total_chunks filename chunking_method ics result =
         Inr (result @ map (\<lambda>ic. chunk_header env ss total_chunks filename chunking_method (fst ic) (snd ic) @
                                  [NL] @ snd ic) ics)"
  using assms
proof (induction ics arbitrary: result)
  case Nil
  show ?case by simp
next
  case (Cons ic ics)
  obtain i chunk where ic: "ic = (i, chunk)" by (cases ic)
  from Cons.prems obtain ws where ws: "word_tokenize env chunk = Inr ws" by (auto simp: ic)
  have rest: "\<forall>ic \<in> set ics. \<exists>ws. word_tokenize env (snd ic) = Inr ws" using Cons.prems by simp
  have cnt: "chunk_token_count env chunk = length ws" by (simp add: chunk_token_count_def ws)
  show ?case
    unfolding ic using Cons.IH [OF rest] ws cnt
    by (simp add: Let_def chunk_header_def)
qed

text \<open>
  C9. When the word tokenizer returns on every chunk, the Metadata Annotator returns as
  many chunks as it was given, in the same order. Chunk number \<open>i\<close> (from 1) of \<open>total\<close>
  is a header, an empty line and the chunk unchanged; the header starts with the line
  \<open>---\<close> and the line \<open>CHUNK: i/total\<close> in decimal numerals, goes on with the lines
  \<open>SOURCE\<close>, \<open>CHUNKING_METHOD\<close>, \<open>TOKENS\<close> and, when switched on, \<open>KEYWORDS\<close>, and
  ends with the line \<open>---\<close>. Every returned chunk is strictly longer than the chunk it
  annotates.
\<close>

theorem metadata_annotates_every_chunk:
  assumes "\<forall>chunk \<in> set chunks. \<exists>ws. word_tokenize env chunk = Inr ws"
  shows "\<exists>result.
           add_metadata env ss chunks filename chunking_method = Inr result \<and>
           length result = length chunks \<and>
           (\<forall>i. i < length chunks \<longrightarrow>
              result ! i =
                lit ''---'' @ [NL] @
                lit ''CHUNK: '' @ str_of_nat (i + 1) @ lit ''/'' @ str_of_nat (length chunks) @ [NL] @
                lit ''SOURCE: '' @ filename @ [NL] @
                lit ''CHUNKING_METHOD: '' @ chunking_method @ [NL] @
                lit ''TOKENS: ~'' @ str_of_nat (chunk_token_count env (chunks ! i)) @ [NL] @
                keywords_section env ss (chunks ! i) @ lit ''---'' @ [NL] @
                [NL] @ chunks ! i \<and>
              decimal_value (str_of_nat (i + 1)) = i + 1 \<and>
              decimal_value (str_of_nat (length chunks)) = length chunks \<and>
              length (chunks ! i) < length (result ! i))"
proof -
  let ?h = "\<lambda>ic. chunk_header env ss (length chunks) filename chunking_method (fst ic) (snd ic) @
                  [NL] @ snd ic"
  let ?r = "map ?h (enumerate 0 chunks)"
  have tok: "\<forall>ic \<in> set (enumerate 0 chunks). \<exists>ws. word_tokenize env (snd ic) = Inr ws"
    using assms by (auto simp: in_set_enumerate_eq)
  have run: "add_metadata env ss chunks filename chunking_method = Inr ?r"
    using add_metadata_loop_result [OF tok, of ss "length chunks" filename chunking_method "[]"]
    by (simp add: add_metadata_def)
  have len: "length ?r = length chunks" by simp
  have nth: "?r ! i = chunk_header env ss (length chunks) filename chunking_method i (chunks ! i) @
                  [NL] @ chunks ! i" if "i < length chunks" for i
    using that by (simp add: nth_enumerate_eq)
  have each: "\<forall>i. i < length chunks \<longrightarrow>
              ?r ! i =
                lit ''---'' @ [NL] @
                lit ''CHUNK: '' @ str_of_nat (i + 1) @ lit ''/'' @ str_of_nat (length chunks) @ [NL] @
                lit ''SOURCE: '' @ filename @ [NL] @
                lit ''CHUNKING_METHOD: '' @ chunking_method @ [NL] @
                lit ''TOKENS: ~'' @ str_of_nat (chunk_token_count env (chunks ! i)) @ [NL] @
                keywords_section env ss (chunks ! i) @ lit ''---'' @ [NL] @
                [NL] @ chunks ! i \<and>
              decimal_value (str_of_nat (i + 1)) = i + 1 \<and>
              decimal_value (str_of_nat (length chunks)) = length chunks \<and>
              length (chunks ! i) < length (?r ! i)"
    using nth by (simp add: chunk_header_def decimal_value_str_of_nat)
  show ?thesis using run len each by blast
qed

theorem metadata_annotates_every_chunk_witness:
  "word_tokenize keyword_nlp (lit ''the cat sat on the cat'') =
     Inr [lit ''the'', lit ''cat'', lit ''sat'', lit ''on'', lit ''the'', lit ''cat''] \<and>
   word_tokenize keyword_nlp (lit ''dog'') = Inr [lit ''dog''] \<and>
   add_metadata keyword_nlp \<lparr>extract_keywords_flag = Some True, max_keywords_value = Some 3\<rparr>
       [lit ''the cat sat on the cat'', lit ''dog''] (lit ''f.txt'') (lit ''tokens'') =
     Inr [lit ''---'' @ [NL] @ lit ''CHUNK: 1/2'' @ [NL] @ lit ''SOURCE: f.txt'' @ [NL] @
          lit ''CHUNKING_METHOD: tokens'' @ [NL] @ lit ''TOKENS: ~6'' @ [NL] @
          lit ''KEYWORDS: cat, sat'' @ [NL] @ lit ''---'' @ [NL] @ [NL] @
          lit ''the cat sat on the cat'',
          lit ''---'' @ [NL] @ lit ''CHUNK: 2/2'' @ [NL] @ lit ''SOURCE: f.txt'' @ [NL] @
          lit ''CHUNKING_METHOD: tokens'' @ [NL] @ lit ''TOKENS: ~1'' @ [NL] @
          lit ''KEYWORDS: dog'' @ [NL] @ lit ''---'' @ [NL] @ [NL] @
          lit ''dog'']"
proof -
  let ?c0 = "lit ''the cat sat on the cat''"
  let ?c1 = "lit ''dog''"
  let ?ss = "\<lparr>extract_keywords_flag = Some True, max_keywords_value = Some 3\<rparr>"
  have w0: "word_tokenize keyword_nlp ?c0 =
     Inr [lit ''the'', lit ''cat'', lit ''sat'', lit ''on'', lit ''the'', lit ''cat'']"
    by (simp add: keyword_nlp_def split_ws_def lit_def isspace_def)
  have w1: "word_tokenize keyword_nlp ?c1 = Inr [lit ''dog'']"
    by (simp add: keyword_nlp_def split_ws_def lit_def isspace_def)
  have hyp: "\<forall>chunk \<in> set [?c0, ?c1]. \<exists>ws. word_tokenize keyword_nlp chunk = Inr ws"
    using w0 w1 by simp
  have t0: "chunk_token_count keyword_nlp ?c0 = 6" by (simp add: chunk_token_count_def w0)
  have t1: "chunk_token_count keyword_nlp ?c1 = 1" by (simp add: chunk_token_count_def w1)
  have k0: "keywords_section keyword_nlp ?ss ?c0 = lit ''KEYWORDS: cat, sat'' @ [NL]"
    by (simp add: keywords_section_def extract_keywords_def load_stopwords_def most_common_def
        Counter_def keyword_nlp_def split_ws_def punctuation_def glyphs_def lit_def isspace_def)
  have k1: "keywords_section keyword_nlp ?ss ?c1 = lit ''KEYWORDS: dog'' @ [NL]"
    by (simp add: keywords_section_def extract_keywords_def load_stopwords_def most_common_def
        Counter_def keyword_nlp_def split_ws_def punctuation_def glyphs_def lit_def isspace_def)
  have n: "str_of_nat 1 = lit ''1''" "str_of_nat 2 = lit ''2''" "str_of_nat 6 = lit ''6''"
      "str_of_nat (Suc 0) = lit ''1''" "str_of_nat (Suc (Suc 0)) = lit ''2''"
    by (simp_all add: str_of_nat.simps lit_def)
  from metadata_annotates_every_chunk [OF hyp, of ?ss "lit ''f.txt''" "lit ''tokens''"]
  obtain result where
    run: "add_metadata keyword_nlp ?ss [?c0, ?c1] (lit ''f.txt'') (lit ''tokens'') = Inr result" and
    len: "length result = length [?c0, ?c1]" and
    each: "\<forall>i. i < length [?c0, ?c1] \<longrightarrow>
              result ! i =
                lit ''---'' @ [NL] @
                lit ''CHUNK: '' @ str_of_nat (i + 1) @ lit ''/'' @ str_of_nat (length [?c0, ?c1]) @ [NL] @
                lit ''SOURCE: '' @ lit ''f.txt'' @ [NL] @
                lit ''CHUNKING_METHOD: '' @ lit ''tokens'' @ [NL] @
                lit ''TOKENS: ~'' @ str_of_nat (chunk_token_count keyword_nlp ([?c0, ?c1] ! i)) @ [NL] @
                keywords_section keyword_nlp ?ss ([?c0, ?c1] ! i) @ lit ''---'' @ [NL] @
                [NL] @ [?c0, ?c1] ! i \<and>
              decimal_value (str_of_nat (i + 1)) = i + 1 \<and>
              decimal_value (str_of_nat (length [?c0, ?c1])) = length [?c0, ?c1] \<and>
              length ([?c0, ?c1] ! i) < length (result ! i)"
    by blast
  have r0: "result ! 0 =
          lit ''---'' @ [NL] @ lit ''CHUNK: 1/2'' @ [NL] @ lit ''SOURCE: f.txt'' @ [NL] @
          lit ''CHUNKING_METHOD: tokens'' @ [NL] @ lit ''TOKENS: ~6'' @ [NL] @
          lit ''KEYWORDS: cat, sat'' @ [NL] @ lit ''---'' @ [NL] @ [NL] @ ?c0"
    using each [rule_format, of 0] by (simp add: t0 k0 n) (simp add: lit_def)
  have r1: "result ! 1 =
          lit ''---'' @ [NL] @ lit ''CHUNK: 2/2'' @ [NL] @ lit ''SOURCE: f.txt'' @ [NL] @
          lit ''CHUNKING_METHOD: tokens'' @ [NL] @ lit ''TOKENS: ~1'' @ [NL] @
          lit ''KEYWORDS: dog'' @ [NL] @ lit ''---'' @ [NL] @ [NL] @ ?c1"
    using each [rule_format, of 1] by (simp add: t1 k1 n) (simp add: lit_def)
  from len obtain a b where ab: "result = [a, b]"
    by (auto simp: numeral_2_eq_2 length_Suc_conv)
  have "result = [result ! 0, result ! 1]" unfolding ab by simp
  then show ?thesis using run w0 w1 unfolding r0 r1 by simp
qed

end
